theory Spec2Isabelle
  imports Main
begin

section \<open>Go strings and the library functions the controller calls\<close>

text \<open>
  A Go string is a sequence of bytes, here a \<^typ>\<open>string\<close>; a rune is a code point, here a
  natural number. The functions of the packages \<^verbatim>\<open>unicode/utf8\<close>, \<^verbatim>\<open>unicode\<close> and
  \<^verbatim>\<open>strings\<close> that the controller reaches are written out from the Go library, with the
  same names: text is decoded rune by rune, an invalid byte is the rune \<^verbatim>\<open>U+FFFD\<close> of
  width one.
\<close>

definition byte :: "char \<Rightarrow> nat" where
  "byte c = of_char c"

subsection \<open>Package unicode/utf8\<close>

text \<open>
  \<^verbatim>\<open>DecodeRuneInString\<close> returns the first rune of a string and its width in bytes. The
  table \<^verbatim>\<open>first\<close> of the library is the case distinction on the first byte: below
  \<^verbatim>\<open>0x80\<close> ASCII, \<^verbatim>\<open>0xC2..0xDF\<close> two bytes, \<^verbatim>\<open>0xE0..0xEF\<close> three, \<^verbatim>\<open>0xF0..0xF4\<close> four, every
  other byte invalid; \<open>acceptRange\<close> is the range allowed for the second byte.
  \<open>decodeBytes\<close> is the function on the byte values.
\<close>

definition RuneError :: nat where
  "RuneError = 65533"

definition continuation :: "nat \<Rightarrow> bool" where
  "continuation b = (128 \<le> b \<and> b \<le> 191)"

definition acceptRange :: "nat \<Rightarrow> nat \<times> nat" where
  "acceptRange s0 =
     (if s0 = 224 then (160, 191) else if s0 = 237 then (128, 159)
      else if s0 = 240 then (144, 191) else if s0 = 244 then (128, 143)
      else (128, 191))"

fun decodeBytes :: "nat list \<Rightarrow> nat \<times> nat" where
  "decodeBytes [] = (RuneError, 0)"
| "decodeBytes (s0 # rest) =
     (if s0 < 128 then (s0, 1)
      else if s0 < 194 \<or> 244 < s0 then (RuneError, 1)
      else
        (let sz = (if s0 < 224 then 2 else if s0 < 240 then 3 else (4::nat))
         in if Suc (length rest) < sz then (RuneError, 1)
            else if rest ! 0 < fst (acceptRange s0) \<or> snd (acceptRange s0) < rest ! 0
              then (RuneError, 1)
            else if sz \<le> 2 then ((s0 mod 32) * 64 + rest ! 0 mod 64, 2)
            else if \<not> continuation (rest ! 1) then (RuneError, 1)
            else if sz \<le> 3
              then ((s0 mod 16) * 4096 + (rest ! 0 mod 64) * 64 + rest ! 1 mod 64, 3)
            else if \<not> continuation (rest ! 2) then (RuneError, 1)
            else ((s0 mod 8) * 262144 + (rest ! 0 mod 64) * 4096 + (rest ! 1 mod 64) * 64
                    + rest ! 2 mod 64, 4)))"

definition DecodeRuneInString :: "string \<Rightarrow> nat \<times> nat" where
  "DecodeRuneInString s = decodeBytes (map byte s)"

text \<open>
  \<^verbatim>\<open>DecodeLastRuneInString\<close> returns the last rune of a string and its width. For a last
  byte of \<^verbatim>\<open>0x80\<close> or more the library steps back over at most three bytes to the nearest
  byte that can start a rune (\<open>lastStart\<close>), decodes from there, and answers \<^verbatim>\<open>U+FFFD\<close>
  of width one unless that rune ends where the string ends.
\<close>

definition RuneStart :: "nat \<Rightarrow> bool" where
  "RuneStart b = (\<not> continuation b)"

definition lastStart :: "string \<Rightarrow> nat" where
  "lastStart s =
     (let e = length s
      in if 2 \<le> e \<and> RuneStart (byte (s ! (e - 2))) then e - 2
         else if 3 \<le> e \<and> RuneStart (byte (s ! (e - 3))) then e - 3
         else if 4 \<le> e \<and> RuneStart (byte (s ! (e - 4))) then e - 4
         else if 5 \<le> e then e - 5 else 0)"

definition DecodeLastRuneInString :: "string \<Rightarrow> nat \<times> nat" where
  "DecodeLastRuneInString s =
     (if s = [] then (RuneError, 0)
      else if byte (last s) < 128 then (byte (last s), 1)
      else (case DecodeRuneInString (drop (lastStart s) s) of
              (r, wid) \<Rightarrow> if lastStart s + wid \<noteq> length s then (RuneError, 1) else (r, wid)))"

subsection \<open>Package unicode\<close>

text \<open>\<^verbatim>\<open>unicode.IsSpace\<close>: the runes with the Unicode property White\_Space.\<close>

definition IsSpace :: "nat \<Rightarrow> bool" where
  "IsSpace r =
     (if r \<le> 255
      then r = 9 \<or> r = 10 \<or> r = 11 \<or> r = 12 \<or> r = 13 \<or> r = 32 \<or> r = 133 \<or> r = 160
      else r = 5760 \<or> (8192 \<le> r \<and> r \<le> 8202) \<or> r = 8232 \<or> r = 8233 \<or> r = 8239
           \<or> r = 8287 \<or> r = 12288)"

subsection \<open>Package strings\<close>

text \<open>
  \<^verbatim>\<open>strings.ToLower\<close> on a string of ASCII bytes maps \<^verbatim>\<open>A..Z\<close> to \<^verbatim>\<open>a..z\<close>, and this is
  the function written here. On a string with a byte of \<^verbatim>\<open>0x80\<close> or more Go maps every
  rune through \<^verbatim>\<open>unicode.ToLower\<close> instead. The controller only compares the result with
  \<^verbatim>\<open>"true"\<close>, and no such string gives \<^verbatim>\<open>"true"\<close> either way: here the byte stays, in Go
  no rune outside ASCII has one of the letters \<^verbatim>\<open>t\<close>, \<^verbatim>\<open>r\<close>, \<^verbatim>\<open>u\<close>, \<^verbatim>\<open>e\<close> as its lower
  case.
\<close>

definition lowerByte :: "char \<Rightarrow> char" where
  "lowerByte c =
     (case map_of (zip ''ABCDEFGHIJKLMNOPQRSTUVWXYZ'' ''abcdefghijklmnopqrstuvwxyz'') c of
        None \<Rightarrow> c
      | Some l \<Rightarrow> l)"

definition ToLower :: "string \<Rightarrow> string" where
  "ToLower s = map lowerByte s"

text \<open>
  A rune decoded from a string that is not empty has a width of at least one byte, so the
  loops over runes below come to an end.
\<close>

lemma decodeBytes_size: "1 \<le> snd (decodeBytes (b # bs))"
  by (simp add: Let_def)

lemma DecodeRuneInString_size: "s \<noteq> [] \<Longrightarrow> 1 \<le> snd (DecodeRuneInString s)"
proof (cases s)
  case Nil
  then show "s \<noteq> [] \<Longrightarrow> ?thesis" by simp
next
  case (Cons c cs)
  then show ?thesis
    using decodeBytes_size [of "byte c" "map byte cs"]
    by (simp add: DecodeRuneInString_def del: decodeBytes.simps)
qed

lemma decoded_width: "(r, wid) = DecodeRuneInString (c # cs) \<Longrightarrow> 0 < wid"
  using DecodeRuneInString_size [of "c # cs"] by (cases "DecodeRuneInString (c # cs)") auto

text \<open>
  \<^verbatim>\<open>indexFunc\<close> and \<^verbatim>\<open>lastIndexFunc\<close>: the byte index of the first (last) rune \<open>r\<close> with
  \<open>f r = truth\<close>, \<open>None\<close> for Go's \<open>-1\<close>. The first walks the string as
  \<^verbatim>\<open>for i, r := range s\<close> does, the second steps backwards with
  \<^verbatim>\<open>DecodeLastRuneInString\<close>.
\<close>

function indexFunc :: "string \<Rightarrow> (nat \<Rightarrow> bool) \<Rightarrow> bool \<Rightarrow> nat option" where
  "indexFunc [] f truth = None"
| "indexFunc (c # cs) f truth =
     (case DecodeRuneInString (c # cs) of
        (r, wid) \<Rightarrow>
          if f r = truth then Some 0
          else map_option (\<lambda>i. i + wid) (indexFunc (drop wid (c # cs)) f truth))"
  by pat_completeness auto
termination
  apply (relation "measure (\<lambda>(s, f, truth). length s)")
   apply simp
  apply (auto dest: decoded_width)
  done

lemma lastStart_bound:
  "0 < e \<Longrightarrow>
   (if 2 \<le> e \<and> A then e - 2 else if 3 \<le> e \<and> B then e - 3
    else if 4 \<le> e \<and> C then e - 4 else if 5 \<le> e then e - 5 else (0::nat)) < e"
  by auto

lemma lastStart_less: "s \<noteq> [] \<Longrightarrow> lastStart s < length s"
  unfolding lastStart_def Let_def by (rule lastStart_bound) simp

lemma DecodeLastRuneInString_width:
  "(r, wid) = DecodeLastRuneInString (c # cs) \<Longrightarrow> 0 < wid"
proof -
  assume a: "(r, wid) = DecodeLastRuneInString (c # cs)"
  let ?s = "c # cs"
  have "lastStart ?s < length ?s"
    by (rule lastStart_less) simp
  then have "drop (lastStart ?s) ?s \<noteq> []" by simp
  then have "1 \<le> snd (DecodeRuneInString (drop (lastStart ?s) ?s))"
    by (rule DecodeRuneInString_size)
  with a show ?thesis
    by (auto simp: DecodeLastRuneInString_def split: if_splits prod.splits)
qed

function lastIndexFunc :: "string \<Rightarrow> (nat \<Rightarrow> bool) \<Rightarrow> bool \<Rightarrow> nat option" where
  "lastIndexFunc [] f truth = None"
| "lastIndexFunc (c # cs) f truth =
     (case DecodeLastRuneInString (c # cs) of
        (r, wid) \<Rightarrow>
          if f r = truth then Some (length (c # cs) - wid)
          else lastIndexFunc (take (length (c # cs) - wid) (c # cs)) f truth)"
  by pat_completeness auto
termination
  apply (relation "measure (\<lambda>(s, f, truth). length s)")
   apply simp
  apply (auto dest: DecodeLastRuneInString_width)
  done

text \<open>
  \<^verbatim>\<open>TrimLeftFunc\<close>, \<^verbatim>\<open>TrimRightFunc\<close> and \<^verbatim>\<open>TrimFunc\<close>. \<^verbatim>\<open>TrimRightFunc\<close> cuts after the
  rune found, whose width it takes from decoding forwards at the index.
\<close>

definition TrimLeftFunc :: "string \<Rightarrow> (nat \<Rightarrow> bool) \<Rightarrow> string" where
  "TrimLeftFunc s f = (case indexFunc s f False of None \<Rightarrow> [] | Some i \<Rightarrow> drop i s)"

definition TrimRightFunc :: "string \<Rightarrow> (nat \<Rightarrow> bool) \<Rightarrow> string" where
  "TrimRightFunc s f =
     (case lastIndexFunc s f False of
        None \<Rightarrow> take 0 s
      | Some i \<Rightarrow>
          if 128 \<le> byte (s ! i) then take (i + snd (DecodeRuneInString (drop i s))) s
          else take (i + 1) s)"

definition TrimFunc :: "string \<Rightarrow> (nat \<Rightarrow> bool) \<Rightarrow> string" where
  "TrimFunc s f = TrimRightFunc (TrimLeftFunc s f) f"

text \<open>
  \<^verbatim>\<open>strings.TrimSpace\<close>: a first loop skips ASCII white space from the front, a second
  loop (\<open>trimSpaceEnd\<close>) from the end; either loop hands the rest to \<^verbatim>\<open>TrimFunc\<close> or
  \<^verbatim>\<open>TrimRightFunc\<close> with \<^verbatim>\<open>unicode.IsSpace\<close> when it meets a byte of \<^verbatim>\<open>0x80\<close> or more.
\<close>

definition asciiSpace :: "nat \<Rightarrow> bool" where
  "asciiSpace c = (c = 9 \<or> c = 10 \<or> c = 11 \<or> c = 12 \<or> c = 13 \<or> c = 32)"

function trimSpaceEnd :: "string \<Rightarrow> string" where
  "trimSpaceEnd [] = []"
| "trimSpaceEnd (c # cs) =
     (if 128 \<le> byte (last (c # cs)) then TrimRightFunc (c # cs) IsSpace
      else if \<not> asciiSpace (byte (last (c # cs))) then c # cs
      else trimSpaceEnd (butlast (c # cs)))"
  by pat_completeness auto
termination
  by (relation "measure length") auto

fun TrimSpace :: "string \<Rightarrow> string" where
  "TrimSpace [] = []"
| "TrimSpace (c # cs) =
     (if 128 \<le> byte c then TrimFunc (c # cs) IsSpace
      else if asciiSpace (byte c) then TrimSpace cs
      else trimSpaceEnd (c # cs))"

text \<open>
  \<^verbatim>\<open>strings.EqualFold\<close>. The first loop compares bytes while both are ASCII: equal bytes
  continue, otherwise the smaller one must be an upper-case letter and the larger one its
  lower-case form; at the end both strings must be used up. At the first byte of
  \<^verbatim>\<open>0x80\<close> or more in either string the second loop (\<open>foldRunes\<close>) takes over and
  compares the remaining text rune by rune (\<open>runeFold\<close>): equal runes match, two ASCII
  runes match as before, and any other pair is looked up in the Unicode case table by
  stepping with \<^verbatim>\<open>unicode.SimpleFold\<close> from the smaller rune towards the larger one.
  That table is data of the Go library; it is a parameter \<open>tbl\<close> here, \<open>tbl lo hi\<close>
  saying that the steps from \<open>lo\<close> arrive at \<open>hi\<close>.
\<close>

definition runeFold :: "(nat \<Rightarrow> nat \<Rightarrow> bool) \<Rightarrow> nat \<Rightarrow> nat \<Rightarrow> bool" where
  "runeFold tbl sr tr =
     (if tr = sr then True
      else if max sr tr < 128
        then 65 \<le> min sr tr \<and> min sr tr \<le> 90 \<and> max sr tr = min sr tr + 32
      else tbl (min sr tr) (max sr tr))"

function foldRunes :: "(nat \<Rightarrow> nat \<Rightarrow> bool) \<Rightarrow> string \<Rightarrow> string \<Rightarrow> bool" where
  "foldRunes tbl [] t = (t = [])"
| "foldRunes tbl (c # cs) [] = False"
| "foldRunes tbl (c # cs) (d # ds) =
     (case DecodeRuneInString (c # cs) of
        (sr, n) \<Rightarrow>
          (case DecodeRuneInString (d # ds) of
             (tr, m) \<Rightarrow>
               if runeFold tbl sr tr then foldRunes tbl (drop n (c # cs)) (drop m (d # ds))
               else False))"
  by pat_completeness auto
termination
  apply (relation "measure (\<lambda>(tbl, s, t). length s)")
   apply simp
  apply (auto dest: decoded_width)
  done

fun EqualFold :: "(nat \<Rightarrow> nat \<Rightarrow> bool) \<Rightarrow> string \<Rightarrow> string \<Rightarrow> bool" where
  "EqualFold tbl (c # cs) (d # ds) =
     (if 128 \<le> byte c \<or> 128 \<le> byte d then foldRunes tbl (c # cs) (d # ds)
      else if d = c then EqualFold tbl cs ds
      else if 65 \<le> min (byte c) (byte d) \<and> min (byte c) (byte d) \<le> 90 \<and>
              max (byte c) (byte d) = min (byte c) (byte d) + 32
        then EqualFold tbl cs ds
      else False)"
| "EqualFold tbl s t = (length s = length t)"

text \<open>
  \<^verbatim>\<open>strings.Split(s, sep)\<close> for a one-byte separator: the fields between the separators,
  one more field than there are separators, so the empty string has the one field \<open>''''\<close>.
\<close>

fun Split :: "string \<Rightarrow> char \<Rightarrow> string list" where
  "Split [] sep = [[]]"
| "Split (c # cs) sep =
     (if c = sep then [] # Split cs sep
      else (case Split cs sep of [] \<Rightarrow> [[c]] | f # fs \<Rightarrow> (c # f) # fs))"

definition HasPrefix :: "string \<Rightarrow> string \<Rightarrow> bool" where
  "HasPrefix s p = (length p \<le> length s \<and> take (length p) s = p)"

definition HasSuffix :: "string \<Rightarrow> string \<Rightarrow> bool" where
  "HasSuffix s suf = (length suf \<le> length s \<and> drop (length s - length suf) s = suf)"

definition TrimPrefix :: "string \<Rightarrow> string \<Rightarrow> string" where
  "TrimPrefix s p = (if HasPrefix s p then drop (length p) s else s)"

definition TrimSuffix :: "string \<Rightarrow> string \<Rightarrow> string" where
  "TrimSuffix s suf = (if HasSuffix s suf then take (length s - length suf) s else s)"

section \<open>Annotations (controllers/annotations.go)\<close>

text \<open>
  A Go \<^verbatim>\<open>map[string]string\<close>; reading a key that is not there (also from the nil map)
  gives the empty string, the two-value form \<^verbatim>\<open>v, ok := m[k]\<close> tells the difference.
\<close>

type_synonym annotations = "string \<rightharpoonup> string"

definition lookup :: "annotations \<Rightarrow> string \<Rightarrow> string" where
  "lookup m k = (case m k of None \<Rightarrow> [] | Some v \<Rightarrow> v)"

text \<open>
  \<^verbatim>\<open>IngressConfig\<close>. The field \<^verbatim>\<open>CertTTL\<close> is left out: it is computed with
  \<^verbatim>\<open>time.ParseDuration\<close> of the Go library and read nowhere in the controller.
\<close>

record IngressConfig =
  Managed :: bool
  DomainOverride :: string
  ZoneID :: string
  Wildcard :: bool
  SANs :: "string list"
  ReuseExisting :: bool
  DeleteCertOnIngress :: bool
  FallbackWildcard :: bool

definition ParseIngressAnnotations :: "annotations \<Rightarrow> IngressConfig" where
  "ParseIngressAnnotations annotations =
     (let rawWildcard = ToLower (lookup annotations ''acm.tedens.dev/wildcard'');
          rawDelete = ToLower (lookup annotations ''acm.tedens.dev/delete-cert-on-ingress-delete'')
      in \<lparr> Managed = (lookup annotations ''acm.tedens.dev/managed'' = ''true''),
           DomainOverride = lookup annotations ''acm.tedens.dev/domain'',
           ZoneID = lookup annotations ''acm.tedens.dev/zone-id'',
           Wildcard = (rawWildcard = ''true''),
           SANs = (case annotations ''acm.tedens.dev/san'' of
                     None \<Rightarrow> []
                   | Some sanStr \<Rightarrow> map TrimSpace (Split sanStr CHR '','')),
           ReuseExisting = (lookup annotations ''acm.tedens.dev/reuse-existing'' \<noteq> ''false''),
           DeleteCertOnIngress = (rawDelete = ''true''),
           FallbackWildcard = (lookup annotations ''acm.tedens.dev/fallback-wildcard'' = ''true'') \<rparr>)"

section \<open>The objects the controller reads and writes\<close>

text \<open>
  The fields of \<^verbatim>\<open>networkingv1.Ingress\<close> that the controller touches. The deletion timestamp
  is a pointer to a time: \<open>None\<close> is the nil pointer, \<open>Some 0\<close> the zero time.
\<close>

record IngressRule =
  Host :: string

record Ingress =
  Annotations :: annotations
  Finalizers :: "string list"
  DeletionTimestamp :: "nat option"
  Rules :: "IngressRule list"

definition IsZero :: "nat option \<Rightarrow> bool" where
  "IsZero t = (case t of None \<Rightarrow> True | Some n \<Rightarrow> n = 0)"

text \<open>The finalizer helpers of \<^verbatim>\<open>controllerutil\<close> (controller-runtime).\<close>

definition ContainsFinalizer :: "Ingress \<Rightarrow> string \<Rightarrow> bool" where
  "ContainsFinalizer obj finalizer = (finalizer \<in> set (Finalizers obj))"

definition AddFinalizer :: "Ingress \<Rightarrow> string \<Rightarrow> Ingress" where
  "AddFinalizer obj finalizer =
     (if finalizer \<in> set (Finalizers obj) then obj
      else obj\<lparr>Finalizers := Finalizers obj @ [finalizer]\<rparr>)"

definition RemoveFinalizer :: "Ingress \<Rightarrow> string \<Rightarrow> Ingress" where
  "RemoveFinalizer obj finalizer =
     obj\<lparr>Finalizers := filter (\<lambda>f. f \<noteq> finalizer) (Finalizers obj)\<rparr>"

definition ingressFinalizer :: string where
  "ingressFinalizer = ''acm.tedens.dev/finalizer''"

text \<open>
  The types of the ACM and Route 53 clients, with the fields the controller reads or sets.
  A nil \<^verbatim>\<open>*string\<close> reads as the empty string (\<^verbatim>\<open>aws.ToString\<close>); the resource record of
  a validation option is a pointer the controller tests for nil.
\<close>

datatype CertificateStatus =
  PendingValidation | Issued | Inactive | Expired | ValidationTimedOut | Revoked | Failed

record CertificateSummary =
  CertificateArn :: string
  DomainName :: string

record ResourceRecord =
  RecordName :: string
  RecordType :: string
  RecordValue :: string

record DomainValidation =
  ValidationDomainName :: string
  ResourceRecord :: "ResourceRecord option"

record CertificateDetail =
  Status :: CertificateStatus
  FailureReason :: string
  DomainValidationOptions :: "DomainValidation list"

record RequestCertificateInput =
  RequestDomainName :: string
  ValidationMethod :: string
  SubjectAlternativeNames :: "string list"
  Tags :: "(string \<times> string) list"

record HostedZone =
  ZoneId :: string
  ZoneName :: string

record ChangeResourceRecordSetsInput =
  HostedZoneId :: string
  Action :: string
  SetName :: string
  SetType :: string
  TTL :: nat
  SetValues :: "string list"

text \<open>
  Errors. A client call fails with \<open>NotFound\<close> (what \<^verbatim>\<open>apierrors.IsNotFound\<close> recognises) or
  any other \<open>ApiError\<close>; the controller wraps errors with \<^verbatim>\<open>fmt.Errorf("...: %w", err)\<close>
  and makes three of its own.
\<close>

datatype error =
    NotFound
  | ApiError string
  | Errorf string error
  | TimedOut string
  | ValidationFailed string
  | NoMatchingZone string

definition IgnoreNotFound :: "error \<Rightarrow> error option" where
  "IgnoreNotFound err = (if err = NotFound then None else Some err)"

record Result =
  Requeue :: bool
  RequeueAfter :: nat

definition noRequeue :: Result where
  "noRequeue = \<lparr>Requeue = False, RequeueAfter = 0\<rparr>"

section \<open>The outside world: clients, clock and the calls made\<close>

text \<open>
  The API server, ACM and Route 53 are outside the program. They are a parameter of the
  model: a state \<open>'w\<close> of the world and, for every operation the controller calls, a
  function that answers a request in a world with an error or a response, the time the
  call took, and the next world. Nothing is assumed about the answers. Durations are in
  nanoseconds, as \<^verbatim>\<open>time.Duration\<close>. The Unicode case table that \<^verbatim>\<open>strings.EqualFold\<close>
  consults comes with the environment too (\<open>caseTable\<close>); nothing is assumed about it
  either.
\<close>

type_synonym ('w, 'a) api = "'w \<Rightarrow> (error + 'a) \<times> nat \<times> 'w"

record 'w clients =
  k8sGet :: "string \<Rightarrow> ('w, Ingress) api"
  k8sUpdate :: "Ingress \<Rightarrow> ('w, Ingress) api"
  k8sPatch :: "Ingress \<Rightarrow> Ingress \<Rightarrow> ('w, unit) api"
  acmListCertificates :: "CertificateStatus list \<Rightarrow> ('w, CertificateSummary list) api"
  acmDeleteCertificate :: "string \<Rightarrow> ('w, unit) api"
  acmRequestCertificate :: "RequestCertificateInput \<Rightarrow> ('w, string) api"
  acmDescribeCertificate :: "string \<Rightarrow> ('w, CertificateDetail) api"
  r53ListHostedZones :: "('w, HostedZone list) api"
  r53ChangeResourceRecordSets :: "ChangeResourceRecordSetsInput \<Rightarrow> ('w, unit) api"
  oversleep :: "'w \<Rightarrow> nat \<times> 'w"
  caseTable :: "nat \<Rightarrow> nat \<Rightarrow> bool"

text \<open>
  Every call the program makes is recorded, in order. \<open>Update\<close> carries the object sent,
  \<open>Patch\<close> the base of the merge patch and the changed object.
\<close>

datatype call =
    Get string
  | Update Ingress
  | Patch Ingress Ingress
  | ListCertificates "CertificateStatus list"
  | DeleteCertificate string
  | RequestCertificate RequestCertificateInput
  | DescribeCertificate string
  | ListHostedZones
  | ChangeResourceRecordSets ChangeResourceRecordSetsInput
  | Sleep nat

record 'w state =
  world :: 'w
  now :: nat
  calls :: "call list"

definition perform :: "call \<Rightarrow> ('w, 'a) api \<Rightarrow> 'w state \<Rightarrow> (error + 'a) \<times> 'w state" where
  "perform c f s =
     (case f (world s) of
        (r, d, w) \<Rightarrow> (r, \<lparr>world = w, now = now s + d, calls = calls s @ [c]\<rparr>))"

text \<open>\<^verbatim>\<open>time.Sleep(d)\<close> pauses for at least \<open>d\<close>; how much longer is the world's choice.\<close>

definition sleep :: "'w clients \<Rightarrow> nat \<Rightarrow> 'w state \<Rightarrow> 'w state" where
  "sleep env d s =
     (case oversleep env (world s) of
        (extra, w) \<Rightarrow> \<lparr>world = w, now = now s + d + extra, calls = calls s @ [Sleep d]\<rparr>)"

definition second :: nat where
  "second = 1000000000"

section \<open>The controller\<close>

subsection \<open>findMatchingHostedZone\<close>

text \<open>
  The loop over the hosted zones (lines 277 to 286), with its two variables
  \<^verbatim>\<open>matchedZoneID\<close> and \<^verbatim>\<open>longestMatchLen\<close> as the accumulator; both start at their
  zero values, the empty string and 0.
\<close>

fun matchZones :: "string \<Rightarrow> HostedZone list \<Rightarrow> string \<times> nat \<Rightarrow> string \<times> nat" where
  "matchZones domain [] best = best"
| "matchZones domain (zone # zones) (matchedZoneID, longestMatchLen) =
     (let zoneName = TrimSuffix (ZoneName zone) ''.''
      in if HasSuffix domain zoneName \<and> length zoneName > longestMatchLen
         then matchZones domain zones (ZoneId zone, length zoneName)
         else matchZones domain zones (matchedZoneID, longestMatchLen))"

definition findMatchingHostedZone ::
  "'w clients \<Rightarrow> string \<Rightarrow> 'w state \<Rightarrow> (string \<times> error option) \<times> 'w state" where
  "findMatchingHostedZone env domain s =
     (case perform ListHostedZones (r53ListHostedZones env) s of
        (Inl err, s1) \<Rightarrow> (([], Some err), s1)
      | (Inr list, s1) \<Rightarrow>
          (case matchZones domain list ([], 0) of
             (matchedZoneID, longestMatchLen) \<Rightarrow>
               if matchedZoneID = [] then (([], Some (NoMatchingZone domain)), s1)
               else ((TrimPrefix matchedZoneID ''/hostedzone/'', None), s1)))"

subsection \<open>createRoute53ValidationRecords\<close>

definition recordKey :: "ResourceRecord \<Rightarrow> string" where
  "recordKey record = RecordName record @ ''|'' @ RecordType record @ ''|'' @ RecordValue record"

definition upsert :: "string \<Rightarrow> ResourceRecord \<Rightarrow> ChangeResourceRecordSetsInput" where
  "upsert hostedZoneID record =
     \<lparr> HostedZoneId = hostedZoneID, Action = ''UPSERT'', SetName = RecordName record,
       SetType = RecordType record, TTL = 300, SetValues = [RecordValue record] \<rparr>"

text \<open>
  \<open>recordKey\<close> is the key \<^verbatim>\<open>fmt.Sprintf("%s|%s|%s", name, type, value)\<close>, \<open>upsert\<close> the change
  request built for one record. \<open>validationRecords\<close> is the loop over the validation
  options (lines 216 to 266); \<open>seen\<close> holds the keys already handled.
\<close>

fun validationRecords ::
  "'w clients \<Rightarrow> string \<Rightarrow> DomainValidation list \<Rightarrow> string set \<Rightarrow> 'w state
   \<Rightarrow> error option \<times> 'w state" where
  "validationRecords env zoneID [] seen s = (None, s)"
| "validationRecords env zoneID (option # options) seen s =
     (case ResourceRecord option of
        None \<Rightarrow> validationRecords env zoneID options seen s
      | Some record \<Rightarrow>
          if recordKey record \<in> seen then validationRecords env zoneID options seen s
          else
            (case (if zoneID = [] then findMatchingHostedZone env (ValidationDomainName option) s
                   else ((zoneID, None), s)) of
               ((guessed, Some err), s1) \<Rightarrow> (Some (Errorf ''failed to infer zone'' err), s1)
             | ((hostedZoneID, None), s1) \<Rightarrow>
                 (case perform (ChangeResourceRecordSets (upsert hostedZoneID record))
                         (r53ChangeResourceRecordSets env (upsert hostedZoneID record)) s1 of
                    (Inl err, s2) \<Rightarrow>
                      (Some (Errorf ''failed to create DNS validation record'' err), s2)
                  | (Inr ok, s2) \<Rightarrow>
                      validationRecords env zoneID options (insert (recordKey record) seen) s2)))"

definition createRoute53ValidationRecords ::
  "'w clients \<Rightarrow> string \<Rightarrow> string \<Rightarrow> 'w state \<Rightarrow> error option \<times> 'w state" where
  "createRoute53ValidationRecords env certArn zoneID s =
     (case perform (DescribeCertificate certArn) (acmDescribeCertificate env certArn) s of
        (Inl err, s1) \<Rightarrow> (Some (Errorf ''failed to describe certificate'' err), s1)
      | (Inr describe, s1) \<Rightarrow>
          validationRecords env zoneID (DomainValidationOptions describe) {} s1)"

subsection \<open>deleteCertificateForDomain\<close>

definition listedStatuses :: "CertificateStatus list" where
  "listedStatuses = [Issued, PendingValidation]"

definition deleteCertificateForDomain ::
  "'w clients \<Rightarrow> string \<Rightarrow> 'w state \<Rightarrow> error option \<times> 'w state" where
  "deleteCertificateForDomain env domain s =
     (case perform (ListCertificates listedStatuses) (acmListCertificates env listedStatuses) s of
        (Inl err, s1) \<Rightarrow> (Some err, s1)
      | (Inr out, s1) \<Rightarrow>
          (case find (\<lambda>cert. EqualFold (caseTable env) (DomainName cert) domain) out of
             None \<Rightarrow> (None, s1)
           | Some cert \<Rightarrow>
               (case perform (DeleteCertificate (CertificateArn cert))
                       (acmDeleteCertificate env (CertificateArn cert)) s1 of
                  (Inl err, s2) \<Rightarrow> (Some err, s2)
                | (Inr ok, s2) \<Rightarrow> (None, s2))))"

subsection \<open>ensureCertificate\<close>

definition timeout :: nat where
  "timeout = 10 * 60 * second"

definition interval :: nat where
  "interval = 15 * second"

text \<open>
  The poll loop (lines 177 to 205). \<open>attempts\<close> only decides when a progress line is
  logged. The loop ends because every round sleeps for the interval, so the clock passes
  the deadline.
\<close>

function pollCertificate ::
  "'w clients \<Rightarrow> string \<Rightarrow> nat \<Rightarrow> nat \<Rightarrow> 'w state \<Rightarrow> (string \<times> error option) \<times> 'w state" where
  "pollCertificate env certArn deadline attempts s =
     (if deadline < now s then ((certArn, Some (TimedOut certArn)), s)
      else
        (case perform (DescribeCertificate certArn) (acmDescribeCertificate env certArn) s of
           (Inl err, s1) \<Rightarrow> ((certArn, Some err), s1)
         | (Inr describe, s1) \<Rightarrow>
             (case Status describe of
                Issued \<Rightarrow> ((certArn, None), s1)
              | Failed \<Rightarrow> ((certArn, Some (ValidationFailed (FailureReason describe))), s1)
              | other \<Rightarrow>
                  pollCertificate env certArn deadline (attempts + 1) (sleep env interval s1))))"
  by pat_completeness auto

termination pollCertificate
  apply (relation "measure (\<lambda>(env, certArn, deadline, attempts, s). Suc deadline - now s)")
   apply simp
  apply (auto simp: perform_def sleep_def interval_def second_def split: prod.splits)
  done

text \<open>
  \<^verbatim>\<open>ensureCertificate\<close> returns a pair (identifier, error). Its first block, the reuse
  check under \<^verbatim>\<open>if cfg.ReuseExisting\<close> (lines 125 to 140), either returns from the function
  (\<open>Some\<close> of the pair returned) or falls through (\<open>None\<close>) to the request; \<open>newRequest\<close>
  is the request input built in lines 142 to 156.
\<close>

definition reuseCheck ::
  "'w clients \<Rightarrow> string \<Rightarrow> IngressConfig \<Rightarrow> 'w state
   \<Rightarrow> (string \<times> error option) option \<times> 'w state" where
  "reuseCheck env domain cfg s =
     (if ReuseExisting cfg
      then (case perform (ListCertificates listedStatuses)
                   (acmListCertificates env listedStatuses) s of
              (Inl err, s1) \<Rightarrow> (Some ([], Some err), s1)
            | (Inr out, s1) \<Rightarrow>
                (case find (\<lambda>cert. EqualFold (caseTable env) (DomainName cert) domain) out of
                   Some cert \<Rightarrow> (Some (CertificateArn cert, None), s1)
                 | None \<Rightarrow> (None, s1)))
      else (None, s))"

definition newRequest :: "string \<Rightarrow> IngressConfig \<Rightarrow> RequestCertificateInput" where
  "newRequest domain cfg =
     \<lparr> RequestDomainName = (if Wildcard cfg then ''*.'' @ domain else domain),
       ValidationMethod = ''DNS'',
       SubjectAlternativeNames = (if length (SANs cfg) > 0 then SANs cfg else []),
       Tags = [(''ManagedBy'', ''acm-manager'')] \<rparr>"

definition ensureCertificate ::
  "'w clients \<Rightarrow> string \<Rightarrow> IngressConfig \<Rightarrow> 'w state \<Rightarrow> (string \<times> error option) \<times> 'w state" where
  "ensureCertificate env domain cfg s =
     (case reuseCheck env domain cfg s of
        (Some returned, s1) \<Rightarrow> (returned, s1)
      | (None, s1) \<Rightarrow>
          (case perform (RequestCertificate (newRequest domain cfg))
                  (acmRequestCertificate env (newRequest domain cfg)) s1 of
             (Inl err, s2) \<Rightarrow> (([], Some err), s2)
           | (Inr certArn, s2) \<Rightarrow>
               (case createRoute53ValidationRecords env certArn (ZoneID cfg) s2 of
                  (Some err, s3) \<Rightarrow> ((certArn, Some err), s3)
                | (None, s3) \<Rightarrow> pollCertificate env certArn (now s3 + timeout) 0 s3)))"

subsection \<open>Reconcile\<close>

definition certificateArnKey :: string where
  "certificateArnKey = ''alb.ingress.kubernetes.io/certificate-arn''"

definition resync :: nat where
  "resync = 12 * 60 * 60 * second"

definition selectDomain :: "IngressConfig \<Rightarrow> Ingress \<Rightarrow> string" where
  "selectDomain cfg ingress =
     (if DomainOverride cfg = [] \<and> length (Rules ingress) > 0
      then Host (hd (Rules ingress)) else DomainOverride cfg)"

text \<open>
  \<open>selectDomain\<close> is the choice of the domain in lines 48 to 51. \<^verbatim>\<open>Update\<close> and \<^verbatim>\<open>Patch\<close>
  write the server's answer back into the object; only \<^verbatim>\<open>Update\<close> is followed by code
  that reads it. A \<^verbatim>\<open>Get\<close> that fails returns \<^verbatim>\<open>client.IgnoreNotFound(err)\<close>.
\<close>

definition Reconcile :: "'w clients \<Rightarrow> string \<Rightarrow> 'w state \<Rightarrow> (Result \<times> error option) \<times> 'w state" where
  "Reconcile env req s =
     (case perform (Get req) (k8sGet env req) s of
        (Inl err, s1) \<Rightarrow> ((noRequeue, IgnoreNotFound err), s1)
      | (Inr ingress, s1) \<Rightarrow>
          (let cfg = ParseIngressAnnotations (Annotations ingress) in
           if \<not> Managed cfg then ((noRequeue, None), s1)
           else
             (let domain = selectDomain cfg ingress in
              if IsZero (DeletionTimestamp ingress) then
                (case (if \<not> ContainsFinalizer ingress ingressFinalizer
                       then perform (Update (AddFinalizer ingress ingressFinalizer))
                              (k8sUpdate env (AddFinalizer ingress ingressFinalizer)) s1
                       else (Inr ingress, s1)) of
                   (Inl err, s2) \<Rightarrow> ((noRequeue, Some err), s2)
                 | (Inr ingress2, s2) \<Rightarrow>
                     (case ensureCertificate env domain cfg s2 of
                        ((certArn, Some err), s3) \<Rightarrow> ((noRequeue, Some err), s3)
                      | ((certArn, None), s3) \<Rightarrow>
                          (let patched = ingress2\<lparr>Annotations :=
                                 (Annotations ingress2)(certificateArnKey \<mapsto> certArn)\<rparr>
                           in case perform (Patch ingress2 patched)
                                     (k8sPatch env ingress2 patched) s3 of
                                (Inl err, s4) \<Rightarrow> ((noRequeue, Some err), s4)
                              | (Inr ok, s4) \<Rightarrow>
                                  ((\<lparr>Requeue = False, RequeueAfter = resync\<rparr>, None), s4))))
              else if ContainsFinalizer ingress ingressFinalizer then
                (case (if DeleteCertOnIngress cfg then deleteCertificateForDomain env domain s1
                       else (None, s1)) of
                   (Some err, s2) \<Rightarrow> ((noRequeue, Some err), s2)
                 | (None, s2) \<Rightarrow>
                     (case perform (Update (RemoveFinalizer ingress ingressFinalizer))
                             (k8sUpdate env (RemoveFinalizer ingress ingressFinalizer)) s2 of
                        (Inl err, s3) \<Rightarrow> ((noRequeue, Some err), s3)
                      | (Inr ingress2, s3) \<Rightarrow> ((noRequeue, None), s3)))
              else ((noRequeue, None), s1))))"

section \<open>Reading the calls of a run\<close>

text \<open>
  Predicates on recorded calls, to say what a pass did and what it did not do:
  writes to the API server, sleeps, certificate deletions, Route 53 calls, the calls of
  the poll loop for a certificate, and the upsert of a given record. \<open>newCalls s s'\<close> are
  the calls made from state \<open>s\<close> to state \<open>s'\<close>; \<open>grows P s s'\<close> says that \<open>s'\<close> has the
  calls of \<open>s\<close> followed by calls that all satisfy \<open>P\<close>.
\<close>

fun isWrite :: "call \<Rightarrow> bool" where
  "isWrite (Update obj) = True"
| "isWrite (Patch base obj) = True"
| "isWrite c = False"

fun isPatch :: "call \<Rightarrow> bool" where
  "isPatch (Patch base obj) = True"
| "isPatch c = False"

fun isSleep :: "call \<Rightarrow> bool" where
  "isSleep (Sleep d) = True"
| "isSleep c = False"

fun isDeleteCertificate :: "call \<Rightarrow> bool" where
  "isDeleteCertificate (DeleteCertificate arn) = True"
| "isDeleteCertificate c = False"

fun isRoute53 :: "call \<Rightarrow> bool" where
  "isRoute53 ListHostedZones = True"
| "isRoute53 (ChangeResourceRecordSets change) = True"
| "isRoute53 c = False"

fun isPoll :: "string \<Rightarrow> call \<Rightarrow> bool" where
  "isPoll certArn (DescribeCertificate arn) = (arn = certArn)"
| "isPoll certArn (Sleep d) = (d = interval)"
| "isPoll certArn c = False"

fun isUpsertOf :: "ResourceRecord \<Rightarrow> call \<Rightarrow> bool" where
  "isUpsertOf rr (ChangeResourceRecordSets change) =
     (Action change = ''UPSERT'' \<and> SetName change = RecordName rr \<and>
      SetType change = RecordType rr \<and> SetValues change = [RecordValue rr])"
| "isUpsertOf rr c = False"

definition newCalls :: "'w state \<Rightarrow> 'w state \<Rightarrow> call list" where
  "newCalls s s' = drop (length (calls s)) (calls s')"

definition grows :: "(call \<Rightarrow> bool) \<Rightarrow> 'w state \<Rightarrow> 'w state \<Rightarrow> bool" where
  "grows P s s' = (\<exists>cs. calls s' = calls s @ cs \<and> list_all P cs)"

text \<open>
  The describe calls of the poll loop answer PendingValidation up to the deadline: in every
  state that satisfies \<open>invar\<close> and is not past the deadline, the describe call answers
  PendingValidation, and the state after the sleep that follows satisfies \<open>invar\<close> again.
\<close>

definition pendingUntil ::
  "'w clients \<Rightarrow> string \<Rightarrow> nat \<Rightarrow> ('w state \<Rightarrow> bool) \<Rightarrow> bool" where
  "pendingUntil env certArn deadline invar =
     (\<forall>s. invar s \<and> now s \<le> deadline \<longrightarrow>
        (\<exists>detail s1.
           perform (DescribeCertificate certArn) (acmDescribeCertificate env certArn) s
             = (Inr detail, s1) \<and>
           Status detail = PendingValidation \<and> invar (sleep env interval s1)))"

text \<open>The record descriptors among the validation options of a certificate.\<close>

definition descriptors :: "DomainValidation list \<Rightarrow> ResourceRecord set" where
  "descriptors opts = {rr. \<exists>opt\<in>set opts. ResourceRecord opt = Some rr}"


section \<open>White space and runes\<close>



text \<open>
  \<open>runeCount s\<close>: the number of runes a \<^verbatim>\<open>range\<close> loop over \<open>s\<close> sees
  (\<^verbatim>\<open>utf8.RuneCountInString\<close>), every invalid byte counting as one.
\<close>

function runeCount :: "string \<Rightarrow> nat" where
  "runeCount [] = 0"
| "runeCount (c # cs) = Suc (runeCount (drop (snd (DecodeRuneInString (c # cs))) (c # cs)))"
  by pat_completeness auto
termination
proof (relation "measure length")
  show "wf (measure length)" by simp
next
  fix c cs
  from DecodeRuneInString_size [of "c # cs"]
  show "(drop (snd (DecodeRuneInString (c # cs))) (c # cs), c # cs) \<in> measure length"
    by simp
qed

declare pollCertificate.simps [simp del]

declare decodeBytes.simps [simp del]

declare indexFunc.simps [simp del] lastIndexFunc.simps [simp del] foldRunes.simps [simp del]
  trimSpaceEnd.simps [simp del]


declare runeCount.simps(2) [simp del]

section \<open>Example worlds\<close>

text \<open>
  The entries of the Unicode case table that involve an ASCII letter: \<^verbatim>\<open>K\<close> and \<^verbatim>\<open>k\<close>
  fold to the Kelvin sign \<^verbatim>\<open>U+212A\<close>, \<^verbatim>\<open>S\<close> and \<^verbatim>\<open>s\<close> to the long s \<^verbatim>\<open>U+017F\<close>.
\<close>

definition asciiOrbits :: "nat \<Rightarrow> nat \<Rightarrow> bool" where
  "asciiOrbits lo hi =
     ((lo = 75 \<or> lo = 107) \<and> hi = 8490 \<or> (lo = 83 \<or> lo = 115) \<and> hi = 383)"

text \<open>
  A world in which every call succeeds after one nanosecond: \<^verbatim>\<open>Get\<close> answers the given
  object, \<^verbatim>\<open>Update\<close> stores what it is sent, the ACM and Route 53 calls answer the given
  certificates, certificate detail and zones. Failing worlds are made from it by replacing
  one operation.
\<close>

definition exampleClients ::
  "Ingress \<Rightarrow> CertificateSummary list \<Rightarrow> CertificateDetail \<Rightarrow> HostedZone list \<Rightarrow> unit clients" where
  "exampleClients ingress certs detail zones =
     \<lparr> k8sGet = (\<lambda>req w. (Inr ingress, 1, w)),
       k8sUpdate = (\<lambda>obj w. (Inr obj, 1, w)),
       k8sPatch = (\<lambda>base obj w. (Inr (), 1, w)),
       acmListCertificates = (\<lambda>statuses w. (Inr certs, 1, w)),
       acmDeleteCertificate = (\<lambda>arn w. (Inr (), 1, w)),
       acmRequestCertificate = (\<lambda>request w. (Inr ''arn:new'', 1, w)),
       acmDescribeCertificate = (\<lambda>arn w. (Inr detail, 1, w)),
       r53ListHostedZones = (\<lambda>w. (Inr zones, 1, w)),
       r53ChangeResourceRecordSets = (\<lambda>change w. (Inr (), 1, w)),
       oversleep = (\<lambda>w. (0, w)),
       caseTable = asciiOrbits \<rparr>"

definition start :: "unit state" where
  "start = \<lparr>world = (), now = 0, calls = []\<rparr>"

definition pendingDetail :: CertificateDetail where
  "pendingDetail =
     \<lparr>Status = PendingValidation, FailureReason = [], DomainValidationOptions = []\<rparr>"

definition unmanagedIngress :: Ingress where
  "unmanagedIngress =
     \<lparr> Annotations = [''acm.tedens.dev/managed'' \<mapsto> ''True'',
                      ''acm.tedens.dev/wildcard'' \<mapsto> ''true''],
       Finalizers = [ingressFinalizer], DeletionTimestamp = Some 5,
       Rules = [\<lparr>Host = ''a.example.com''\<rparr>] \<rparr>"

definition deletingIngress :: Ingress where
  "deletingIngress =
     \<lparr> Annotations = [''acm.tedens.dev/managed'' \<mapsto> ''true'',
                      ''acm.tedens.dev/delete-cert-on-ingress-delete'' \<mapsto> ''TRUE''],
       Finalizers = [''other/finalizer'', ingressFinalizer], DeletionTimestamp = Some 5,
       Rules = [\<lparr>Host = ''a.example.com''\<rparr>] \<rparr>"

definition liveIngress :: Ingress where
  "liveIngress =
     \<lparr> Annotations = [''acm.tedens.dev/managed'' \<mapsto> ''true'',
                      ''acm.tedens.dev/domain'' \<mapsto> ''foo.example.com'',
                      ''acm.tedens.dev/wildcard'' \<mapsto> ''false''],
       Finalizers = [], DeletionTimestamp = None,
       Rules = [\<lparr>Host = ''a.example.com''\<rparr>] \<rparr>"

definition noReuseIngress :: Ingress where
  "noReuseIngress =
     \<lparr> Annotations = [''acm.tedens.dev/managed'' \<mapsto> ''true'',
                      ''acm.tedens.dev/domain'' \<mapsto> ''foo.example.com'',
                      ''acm.tedens.dev/reuse-existing'' \<mapsto> ''false''],
       Finalizers = [ingressFinalizer], DeletionTimestamp = None, Rules = [] \<rparr>"

definition wildcardIngress :: Ingress where
  "wildcardIngress =
     \<lparr> Annotations = [''acm.tedens.dev/managed'' \<mapsto> ''true'',
                      ''acm.tedens.dev/wildcard'' \<mapsto> ''true''],
       Finalizers = [ingressFinalizer], DeletionTimestamp = None,
       Rules = [\<lparr>Host = ''example.com''\<rparr>] \<rparr>"

definition exampleCert :: CertificateSummary where
  "exampleCert = \<lparr>CertificateArn = ''arn:old'', DomainName = ''A.Example.com''\<rparr>"

definition wildcardCert :: CertificateSummary where
  "wildcardCert = \<lparr>CertificateArn = ''arn:wild'', DomainName = ''*.example.com''\<rparr>"

definition certList :: "CertificateSummary list" where
  "certList =
     [\<lparr>CertificateArn = ''arn:other'', DomainName = ''b.example.com''\<rparr>,
      exampleCert,
      \<lparr>CertificateArn = ''arn:later'', DomainName = ''a.example.com''\<rparr>]"

text \<open>
  Two certificates for the same domain, the first one spelled with the Kelvin sign
  \<^verbatim>\<open>U+212A\<close> (the bytes \<^verbatim>\<open>E2 84 AA\<close>), which \<^verbatim>\<open>strings.EqualFold\<close> equates with \<^verbatim>\<open>k\<close>.
\<close>

definition kelvinList :: "CertificateSummary list" where
  "kelvinList =
     [\<lparr>CertificateArn = ''arn:kelvin'',
       DomainName = [CHR 0xE2, CHR 0x84, CHR 0xAA] @ ''.Example.com''\<rparr>,
      \<lparr>CertificateArn = ''arn:ascii'', DomainName = ''k.example.com''\<rparr>]"

definition exampleRecord :: ResourceRecord where
  "exampleRecord =
     \<lparr>RecordName = ''_x1.foo.example.com.'', RecordType = ''CNAME'',
      RecordValue = ''_y1.acm-validations.aws.''\<rparr>"

definition detailWithRecord :: CertificateDetail where
  "detailWithRecord =
     \<lparr> Status = PendingValidation, FailureReason = [],
       DomainValidationOptions =
         [\<lparr>ValidationDomainName = ''foo.example.com'', ResourceRecord = Some exampleRecord\<rparr>,
          \<lparr>ValidationDomainName = ''foo.example.com'', ResourceRecord = Some exampleRecord\<rparr>] \<rparr>"

definition detailWithThree :: CertificateDetail where
  "detailWithThree =
     \<lparr> Status = PendingValidation, FailureReason = [],
       DomainValidationOptions =
         [\<lparr>ValidationDomainName = ''foo.example.com'', ResourceRecord = Some exampleRecord\<rparr>,
          \<lparr>ValidationDomainName = ''bar.example.com'', ResourceRecord = None\<rparr>,
          \<lparr>ValidationDomainName = ''www.foo.example.com'', ResourceRecord = Some exampleRecord\<rparr>] \<rparr>"

definition rootZone :: HostedZone where
  "rootZone = \<lparr>ZoneId = ''/hostedzone/Z0'', ZoneName = ''.''\<rparr>"

definition zoneList :: "HostedZone list" where
  "zoneList =
     [\<lparr>ZoneId = ''/hostedzone/Z1'', ZoneName = ''example.com.''\<rparr>,
      \<lparr>ZoneId = ''/hostedzone/Z2'', ZoneName = ''foo.example.com.''\<rparr>,
      \<lparr>ZoneId = ''/hostedzone/Z3'', ZoneName = ''foo.example.com''\<rparr>,
      \<lparr>ZoneId = ''/hostedzone/Z4'', ZoneName = ''example.org.''\<rparr>]"

definition deleteFails :: "unit clients" where
  "deleteFails =
     (exampleClients deletingIngress [exampleCert] pendingDetail [])
       \<lparr>acmDeleteCertificate := (\<lambda>arn w. (Inl (ApiError ''AccessDenied''), 1, w))\<rparr>"

definition deleteWorks :: "unit clients" where
  "deleteWorks = exampleClients deletingIngress [exampleCert] pendingDetail []"

text \<open>
  A world that keeps its own clock, and whose certificate is issued eleven minutes after
  the start: one minute too late for the poll loop.
\<close>

definition lateIssue :: "nat clients" where
  "lateIssue =
     \<lparr> k8sGet = (\<lambda>req w. (Inr liveIngress, 1, w + 1)),
       k8sUpdate = (\<lambda>obj w. (Inr obj, 1, w + 1)),
       k8sPatch = (\<lambda>base obj w. (Inr (), 1, w + 1)),
       acmListCertificates = (\<lambda>statuses w. (Inr [], 1, w + 1)),
       acmDeleteCertificate = (\<lambda>arn w. (Inr (), 1, w + 1)),
       acmRequestCertificate = (\<lambda>request w. (Inr ''arn:new'', 1, w + 1)),
       acmDescribeCertificate = (\<lambda>arn w.
          (Inr (pendingDetail\<lparr>Status :=
                  if w < 11 * 60 * second then PendingValidation else Issued\<rparr>), 1, w + 1)),
       r53ListHostedZones = (\<lambda>w. (Inr [], 1, w + 1)),
       r53ChangeResourceRecordSets = (\<lambda>change w. (Inr (), 1, w + 1)),
       oversleep = (\<lambda>w. (0, w + interval)),
       caseTable = asciiOrbits \<rparr>"

definition startClock :: "nat state" where
  "startClock = \<lparr>world = 0, now = 0, calls = []\<rparr>"

lemmas string_simps = DecodeRuneInString_def DecodeLastRuneInString_def lastStart_def
  RuneStart_def byte_def RuneError_def acceptRange_def continuation_def IsSpace_def
  asciiSpace_def TrimFunc_def TrimLeftFunc_def TrimRightFunc_def runeFold_def
  decodeBytes.simps indexFunc.simps lastIndexFunc.simps foldRunes.simps trimSpaceEnd.simps

lemmas example_simps =
  exampleClients_def start_def deletingIngress_def exampleCert_def perform_def
  ParseIngressAnnotations_def lookup_def ToLower_def lowerByte_def IsZero_def
  ContainsFinalizer_def ingressFinalizer_def selectDomain_def
  deleteCertificateForDomain_def listedStatuses_def asciiOrbits_def string_simps
  RemoveFinalizer_def noRequeue_def

lemmas more_simps =
  liveIngress_def exampleRecord_def detailWithRecord_def certList_def pendingDetail_def
  reuseCheck_def newRequest_def createRoute53ValidationRecords_def findMatchingHostedZone_def
  recordKey_def upsert_def AddFinalizer_def

section \<open>Facts about the string functions\<close>





lemma DecodeRuneInString_ascii: "byte c < 128 \<Longrightarrow> DecodeRuneInString (c # cs) = (byte c, 1)"
  by (simp add: DecodeRuneInString_def decodeBytes.simps)
























text \<open>
  \<^verbatim>\<open>strings.EqualFold\<close> compares rune by rune, so it only equates strings of the same
  number of runes; a string never equals itself with \<^verbatim>\<open>*.\<close> in front. On ASCII strings
  it is equality after lower-casing, whatever the case table: there the two ways in which
  the controller ignores case agree.
\<close>

lemma runeCount_ascii: "byte c < 128 \<Longrightarrow> runeCount (c # cs) = Suc (runeCount cs)"
  by (simp add: runeCount.simps(2) DecodeRuneInString_ascii)

lemma foldRunes_runeCount: "foldRunes tbl s t \<Longrightarrow> runeCount s = runeCount t"
proof (induction tbl s t rule: foldRunes.induct)
  case (1 tbl t)
  then show ?case by (simp add: foldRunes.simps)
next
  case (2 tbl c cs)
  then show ?case by (simp add: foldRunes.simps)
next
  case (3 tbl c cs d ds)
  obtain sr n where s: "DecodeRuneInString (c # cs) = (sr, n)"
    by (cases "DecodeRuneInString (c # cs)")
  obtain tr m where t: "DecodeRuneInString (d # ds) = (tr, m)"
    by (cases "DecodeRuneInString (d # ds)")
  from "3.prems" s t have f: "runeFold tbl sr tr" "foldRunes tbl (drop n (c # cs)) (drop m (d # ds))"
    by (simp_all add: foldRunes.simps split: if_splits)
  from "3.IH" [OF s [symmetric] t [symmetric] f]
  have "runeCount (drop n (c # cs)) = runeCount (drop m (d # ds))" .
  with s t show ?case by (simp add: runeCount.simps(2))
qed

lemma EqualFold_runeCount: "EqualFold tbl s t \<Longrightarrow> runeCount s = runeCount t"
proof (induction tbl s t rule: EqualFold.induct)
  case (1 tbl c cs d ds)
  show ?case
  proof (cases "128 \<le> byte c \<or> 128 \<le> byte d")
    case True
    with "1.prems" have "foldRunes tbl (c # cs) (d # ds)" by simp
    then show ?thesis by (rule foldRunes_runeCount)
  next
    case False
    then have a: "byte c < 128" "byte d < 128" by simp_all
    from "1.prems" False have "EqualFold tbl cs ds \<and> (d = c \<or>
        (65 \<le> min (byte c) (byte d) \<and> min (byte c) (byte d) \<le> 90 \<and>
         max (byte c) (byte d) = min (byte c) (byte d) + 32))" by (simp split: if_splits)
    with "1.IH" False have "runeCount cs = runeCount ds" by blast
    with a show ?thesis by (simp add: runeCount_ascii)
  qed
qed simp_all

lemma EqualFold_wildcard: "\<not> EqualFold tbl (''*.'' @ d) d"
proof
  assume "EqualFold tbl (''*.'' @ d) d"
  then have "runeCount (''*.'' @ d) = runeCount d" by (rule EqualFold_runeCount)
  moreover have "runeCount (''*.'' @ d) = Suc (Suc (runeCount d))"
    by (simp add: runeCount_ascii byte_def)
  ultimately show False by simp
qed

lemma byte_lowerByte:
  "byte (lowerByte c) = (if 65 \<le> byte c \<and> byte c \<le> 90 then byte c + 32 else byte c)"
  by (cases c) (simp add: lowerByte_def byte_def)

lemma byte_inject: "byte c = byte d \<longleftrightarrow> c = d"
  by (simp add: byte_def)

lemma lowerByte_eq_iff:
  "lowerByte c = lowerByte d \<longleftrightarrow>
     (c = d \<or> (65 \<le> min (byte c) (byte d) \<and> min (byte c) (byte d) \<le> 90 \<and>
               max (byte c) (byte d) = min (byte c) (byte d) + 32))"
proof -
  have "lowerByte c = lowerByte d \<longleftrightarrow> byte (lowerByte c) = byte (lowerByte d)"
    by (simp add: byte_inject)
  also have "\<dots> \<longleftrightarrow> (byte c = byte d \<or>
       (65 \<le> min (byte c) (byte d) \<and> min (byte c) (byte d) \<le> 90 \<and>
        max (byte c) (byte d) = min (byte c) (byte d) + 32))"
    by (auto simp: byte_lowerByte min_def max_def)
  finally show ?thesis by (simp add: byte_inject)
qed

lemma EqualFold_ascii:
  assumes "\<forall>c\<in>set s. byte c < 128" and "\<forall>c\<in>set t. byte c < 128"
  shows "EqualFold tbl s t \<longleftrightarrow> ToLower s = ToLower t"
  using assms
proof (induction tbl s t rule: EqualFold.induct)
  case (1 tbl c cs d ds)
  from "1.prems" have a: "\<not> (128 \<le> byte c \<or> 128 \<le> byte d)" by auto
  from "1.prems" have r: "\<forall>c\<in>set cs. byte c < 128" "\<forall>c\<in>set ds. byte c < 128" by simp_all
  show ?case
  proof (cases "d = c")
    case True
    with "1.IH"(1) [OF a True r] a show ?thesis by (simp add: ToLower_def)
  next
    case False
    show ?thesis
    proof (cases "65 \<le> min (byte c) (byte d) \<and> min (byte c) (byte d) \<le> 90 \<and>
                  max (byte c) (byte d) = min (byte c) (byte d) + 32")
      case True
      then have "lowerByte c = lowerByte d" by (simp only: lowerByte_eq_iff) simp
      with "1.IH"(2) [OF a False True r] a False True show ?thesis by (simp add: ToLower_def)
    next
      case n: False
      with False have "lowerByte c \<noteq> lowerByte d" by (simp only: lowerByte_eq_iff) auto
      with a False n show ?thesis by (auto simp: ToLower_def)
    qed
  qed
qed (auto simp: ToLower_def)

text \<open>Prefixes and suffixes, as appending says them.\<close>

lemma HasSuffix_iff: "HasSuffix s suf \<longleftrightarrow> (\<exists>p. s = p @ suf)"
proof
  assume "HasSuffix s suf"
  then have "s = take (length s - length suf) s @ suf"
    by (metis HasSuffix_def append_take_drop_id)
  then show "\<exists>p. s = p @ suf" ..
next
  assume "\<exists>p. s = p @ suf"
  then show "HasSuffix s suf" by (auto simp: HasSuffix_def)
qed

lemma HasPrefix_iff: "HasPrefix s p \<longleftrightarrow> (\<exists>r. s = p @ r)"
proof
  assume "HasPrefix s p"
  then have "s = p @ drop (length p) s"
    by (metis HasPrefix_def append_take_drop_id)
  then show "\<exists>r. s = p @ r" ..
next
  assume "\<exists>r. s = p @ r"
  then show "HasPrefix s p" by (auto simp: HasPrefix_def)
qed

lemma TrimSuffix_append: "TrimSuffix (p @ suf) suf = p"
  by (simp add: TrimSuffix_def HasSuffix_def)

lemma TrimPrefix_append: "TrimPrefix (p @ r) p = r"
  by (simp add: TrimPrefix_def HasPrefix_def)







text \<open>The deduplication key determines the record when names and types hold no \<^verbatim>\<open>|\<close>.\<close>

lemma takeWhile_up_to:
  "c \<notin> set a \<Longrightarrow> takeWhile (\<lambda>z. z \<noteq> c) (a @ c # x) = a"
  by (induction a) auto

lemma cut_at_separator:
  assumes "c \<notin> set a" and "c \<notin> set b" and "a @ c # x = b @ c # y"
  shows "a = b \<and> x = y"
proof -
  have "takeWhile (\<lambda>z. z \<noteq> c) (a @ c # x) = a"
    using assms(1) by (rule takeWhile_up_to)
  moreover have "takeWhile (\<lambda>z. z \<noteq> c) (b @ c # y) = b"
    using assms(2) by (rule takeWhile_up_to)
  ultimately have "a = b" using assms(3) by simp
  with assms(3) show ?thesis by simp
qed

lemma recordKey_inj_on:
  assumes "\<forall>rr\<in>R. CHR ''|'' \<notin> set (RecordName rr) \<and> CHR ''|'' \<notin> set (RecordType rr)"
  shows "inj_on recordKey R"
proof (rule inj_onI)
  fix p q
  assume p: "p \<in> R" and q: "q \<in> R" and k: "recordKey p = recordKey q"
  have k': "RecordName p @ CHR ''|'' # (RecordType p @ CHR ''|'' # RecordValue p) =
            RecordName q @ CHR ''|'' # (RecordType q @ CHR ''|'' # RecordValue q)"
    using k by (simp add: recordKey_def)
  have n: "RecordName p = RecordName q"
    and r: "RecordType p @ CHR ''|'' # RecordValue p = RecordType q @ CHR ''|'' # RecordValue q"
    using cut_at_separator [OF _ _ k'] assms p q by auto
  have "RecordType p = RecordType q \<and> RecordValue p = RecordValue q"
    using cut_at_separator [OF _ _ r] assms p q by auto
  with n show "p = q" by (cases p; cases q) simp
qed

section \<open>The calls each function makes\<close>

lemma perform_calls: "perform c f s = (r, s') \<Longrightarrow> calls s' = calls s @ [c]"
  by (auto simp: perform_def split: prod.splits)

lemma grows_refl: "grows P s s"
  by (simp add: grows_def)

lemma grows_trans: "grows P s s1 \<Longrightarrow> grows P s1 s2 \<Longrightarrow> grows P s s2"
  by (auto simp: grows_def)

lemma grows_perform: "perform c f s = (r, s') \<Longrightarrow> P c \<Longrightarrow> grows P s s'"
  by (auto simp: grows_def dest!: perform_calls)

lemma grows_sleep: "P (Sleep d) \<Longrightarrow> grows P s (sleep env d s)"
  by (auto simp: grows_def sleep_def split: prod.splits)

lemma grows_filter_none:
  "grows P s s' \<Longrightarrow> (\<And>c. P c \<Longrightarrow> \<not> Q c) \<Longrightarrow> filter Q (calls s') = filter Q (calls s)"
  by (auto simp: grows_def list_all_iff)

lemma newCalls_append: "calls s' = calls s @ cs \<Longrightarrow> newCalls s s' = cs"
  by (simp add: newCalls_def)

lemma isRoute53_not_other:
  "isRoute53 c \<Longrightarrow> \<not> isSleep c \<and> \<not> isDeleteCertificate c \<and> \<not> isWrite c \<and> \<not> isPatch c"
  by (cases c) simp_all

lemma isPoll_not_other:
  "isPoll certArn c \<Longrightarrow> \<not> isDeleteCertificate c \<and> \<not> isWrite c \<and> \<not> isPatch c"
  by (cases c) simp_all

lemma isUpsertOf_upsert: "isUpsertOf rr (ChangeResourceRecordSets (upsert zone rr')) \<longleftrightarrow> rr = rr'"
  by (cases rr; cases rr') (auto simp: upsert_def)

lemma filter_only_list:
  "\<forall>c\<in>set cs. c = ListHostedZones \<Longrightarrow> filter (isUpsertOf rr) cs = []"
  by (auto simp: filter_empty_conv)

lemma deleteCertificateForDomain_writes:
  "deleteCertificateForDomain env domain s = (r, s') \<Longrightarrow>
   filter isWrite (calls s') = filter isWrite (calls s)"
  by (auto simp: deleteCertificateForDomain_def split: prod.splits sum.splits option.splits
      dest!: perform_calls)

lemma findMatchingHostedZone_calls:
  "findMatchingHostedZone env domain s = (r, s') \<Longrightarrow> calls s' = calls s @ [ListHostedZones]"
  by (auto simp: findMatchingHostedZone_def perform_def split: prod.splits sum.splits if_splits)

lemma findMatchingHostedZone_grows:
  "findMatchingHostedZone env domain s = (r, s') \<Longrightarrow> grows isRoute53 s s'"
  by (auto simp: grows_def dest!: findMatchingHostedZone_calls)

text \<open>One round of the loop over the validation options, case by case.\<close>

lemma validationRecords_skip_none:
  "ResourceRecord opt = None \<Longrightarrow>
   validationRecords env zoneID (opt # opts) seen s = validationRecords env zoneID opts seen s"
  by simp

lemma validationRecords_skip_seen:
  "ResourceRecord opt = Some rr \<Longrightarrow> recordKey rr \<in> seen \<Longrightarrow>
   validationRecords env zoneID (opt # opts) seen s = validationRecords env zoneID opts seen s"
  by simp

lemma validationRecords_zone_error:
  "ResourceRecord opt = Some rr \<Longrightarrow> recordKey rr \<notin> seen \<Longrightarrow>
   (if zoneID = [] then findMatchingHostedZone env (ValidationDomainName opt) s
    else ((zoneID, None), s)) = ((zone, Some err), s1) \<Longrightarrow>
   validationRecords env zoneID (opt # opts) seen s = (Some (Errorf ''failed to infer zone'' err), s1)"
  by simp

lemma validationRecords_change_error:
  "ResourceRecord opt = Some rr \<Longrightarrow> recordKey rr \<notin> seen \<Longrightarrow>
   (if zoneID = [] then findMatchingHostedZone env (ValidationDomainName opt) s
    else ((zoneID, None), s)) = ((zone, None), s1) \<Longrightarrow>
   perform (ChangeResourceRecordSets (upsert zone rr))
     (r53ChangeResourceRecordSets env (upsert zone rr)) s1 = (Inl err, s2) \<Longrightarrow>
   validationRecords env zoneID (opt # opts) seen s =
     (Some (Errorf ''failed to create DNS validation record'' err), s2)"
  by simp

lemma validationRecords_change_ok:
  "ResourceRecord opt = Some rr \<Longrightarrow> recordKey rr \<notin> seen \<Longrightarrow>
   (if zoneID = [] then findMatchingHostedZone env (ValidationDomainName opt) s
    else ((zoneID, None), s)) = ((zone, None), s1) \<Longrightarrow>
   perform (ChangeResourceRecordSets (upsert zone rr))
     (r53ChangeResourceRecordSets env (upsert zone rr)) s1 = (Inr ok, s2) \<Longrightarrow>
   validationRecords env zoneID (opt # opts) seen s =
     validationRecords env zoneID opts (insert (recordKey rr) seen) s2"
  by simp

lemma validationRecords_Cons_cases:
  assumes "validationRecords env zoneID (opt # opts) seen s = (r, s')"
  obtains
    (skip) "ResourceRecord opt = None \<or> (\<exists>rr. ResourceRecord opt = Some rr \<and> recordKey rr \<in> seen)"
      "validationRecords env zoneID opts seen s = (r, s')"
  | (stop) rr cs where "ResourceRecord opt = Some rr" "recordKey rr \<notin> seen" "r \<noteq> None"
      "calls s' = calls s @ cs" "\<forall>c\<in>set cs. c = ListHostedZones"
  | (failed) rr zone cs where "ResourceRecord opt = Some rr" "recordKey rr \<notin> seen" "r \<noteq> None"
      "calls s' = calls s @ cs @ [ChangeResourceRecordSets (upsert zone rr)]"
      "\<forall>c\<in>set cs. c = ListHostedZones"
  | (continued) rr zone cs s2 where "ResourceRecord opt = Some rr" "recordKey rr \<notin> seen"
      "calls s2 = calls s @ cs @ [ChangeResourceRecordSets (upsert zone rr)]"
      "\<forall>c\<in>set cs. c = ListHostedZones"
      "validationRecords env zoneID opts (insert (recordKey rr) seen) s2 = (r, s')"
proof (cases "ResourceRecord opt")
  case None
  with assms have "validationRecords env zoneID opts seen s = (r, s')"
    by (simp only: validationRecords_skip_none)
  with None skip show ?thesis by blast
next
  case (Some rr)
  show ?thesis
  proof (cases "recordKey rr \<in> seen")
    case True
    with Some assms have "validationRecords env zoneID opts seen s = (r, s')"
      by (simp only: validationRecords_skip_seen)
    with Some True skip show ?thesis by blast
  next
    case False
    obtain zone zerr s1 where z:
      "(if zoneID = [] then findMatchingHostedZone env (ValidationDomainName opt) s
        else ((zoneID, None), s)) = ((zone, zerr), s1)"
      by (metis surj_pair)
    obtain cs where c1: "calls s1 = calls s @ cs" and l1: "\<forall>c\<in>set cs. c = ListHostedZones"
    proof (cases "zoneID = []")
      case True
      with z have "calls s1 = calls s @ [ListHostedZones]"
        by (simp add: findMatchingHostedZone_calls)
      then show ?thesis using that [of "[ListHostedZones]"] by simp
    next
      case False
      with z have "calls s1 = calls s @ []" by simp
      then show ?thesis using that [of "[]"] by simp
    qed
    show ?thesis
    proof (cases zerr)
      case (Some err)
      have "(r, s') = (Some (Errorf ''failed to infer zone'' err), s1)"
        using validationRecords_zone_error [OF \<open>ResourceRecord opt = Some rr\<close> False z [unfolded Some]]
          assms by simp
      then show ?thesis
        using stop [OF \<open>ResourceRecord opt = Some rr\<close> False _ _ l1] c1 by simp
    next
      case None
      obtain a s2 where p:
        "perform (ChangeResourceRecordSets (upsert zone rr))
           (r53ChangeResourceRecordSets env (upsert zone rr)) s1 = (a, s2)"
        by (metis surj_pair)
      have c2: "calls s2 = calls s @ cs @ [ChangeResourceRecordSets (upsert zone rr)]"
        using perform_calls [OF p] c1 by simp
      show ?thesis
      proof (cases a)
        case (Inl err)
        have "(r, s') = (Some (Errorf ''failed to create DNS validation record'' err), s2)"
          using validationRecords_change_error
            [OF \<open>ResourceRecord opt = Some rr\<close> False z [unfolded None] p [unfolded Inl]]
            assms by simp
        then show ?thesis
          using failed [OF \<open>ResourceRecord opt = Some rr\<close> False _ _ l1, of zone] c2 by simp
      next
        case (Inr ok)
        have "validationRecords env zoneID opts (insert (recordKey rr) seen) s2 = (r, s')"
          using validationRecords_change_ok
            [OF \<open>ResourceRecord opt = Some rr\<close> False z [unfolded None] p [unfolded Inr]]
            assms by simp
        then show ?thesis
          using continued [OF \<open>ResourceRecord opt = Some rr\<close> False c2 l1] by simp
      qed
    qed
  qed
qed

lemma validationRecords_grows:
  "validationRecords env zoneID opts seen s = (r, s') \<Longrightarrow> grows isRoute53 s s'"
proof (induction opts arbitrary: seen s)
  case Nil
  then show ?case by (simp add: grows_refl)
next
  case (Cons opt opts)
  show ?case
  proof (cases "ResourceRecord opt")
    case None
    with Cons.prems have "validationRecords env zoneID opts seen s = (r, s')"
      by (simp only: validationRecords_skip_none)
    then show ?thesis by (rule Cons.IH)
  next
    case (Some rr)
    show ?thesis
    proof (cases "recordKey rr \<in> seen")
      case True
      with Some Cons.prems have "validationRecords env zoneID opts seen s = (r, s')"
        by (simp only: validationRecords_skip_seen)
      then show ?thesis by (rule Cons.IH)
    next
      case False
      obtain zone zerr s1 where z:
        "(if zoneID = [] then findMatchingHostedZone env (ValidationDomainName opt) s
          else ((zoneID, None), s)) = ((zone, zerr), s1)"
        by (metis surj_pair)
      have g1: "grows isRoute53 s s1"
      proof (cases "zoneID = []")
        case True
        with z show ?thesis by (simp add: findMatchingHostedZone_grows)
      next
        case False
        with z show ?thesis by (simp add: grows_refl)
      qed
      show ?thesis
      proof (cases zerr)
        case (Some err)
        have "s' = s1"
          using validationRecords_zone_error [OF \<open>ResourceRecord opt = Some rr\<close> False z [unfolded Some]]
            Cons.prems by simp
        with g1 show ?thesis by simp
      next
        case None
        obtain a s2 where p:
          "perform (ChangeResourceRecordSets (upsert zone rr))
             (r53ChangeResourceRecordSets env (upsert zone rr)) s1 = (a, s2)"
          by (metis surj_pair)
        have "grows isRoute53 s1 s2"
          using p by (rule grows_perform) simp
        with g1 have g2: "grows isRoute53 s s2" by (rule grows_trans)
        show ?thesis
        proof (cases a)
          case (Inl err)
          have "s' = s2"
            using validationRecords_change_error
              [OF \<open>ResourceRecord opt = Some rr\<close> False z [unfolded None] p [unfolded Inl]]
              Cons.prems by simp
          with g2 show ?thesis by simp
        next
          case (Inr ok)
          have "validationRecords env zoneID opts (insert (recordKey rr) seen) s2 = (r, s')"
            using validationRecords_change_ok
              [OF \<open>ResourceRecord opt = Some rr\<close> False z [unfolded None] p [unfolded Inr]]
              Cons.prems by simp
          then have "grows isRoute53 s2 s'" by (rule Cons.IH)
          with g2 show ?thesis by (rule grows_trans)
        qed
      qed
    qed
  qed
qed

lemma createRoute53ValidationRecords_grows:
  assumes "createRoute53ValidationRecords env certArn zoneID s = (r, s')"
  shows "\<exists>cs. calls s' = calls s @ DescribeCertificate certArn # cs \<and> list_all isRoute53 cs"
proof -
  obtain a s1 where p:
    "perform (DescribeCertificate certArn) (acmDescribeCertificate env certArn) s = (a, s1)"
    by (metis surj_pair)
  have c1: "calls s1 = calls s @ [DescribeCertificate certArn]"
    using p by (rule perform_calls)
  show ?thesis
  proof (cases a)
    case (Inl err)
    with assms p c1 show ?thesis by (auto simp: createRoute53ValidationRecords_def)
  next
    case (Inr describe)
    with assms p have "validationRecords env zoneID (DomainValidationOptions describe) {} s1 = (r, s')"
      by (auto simp: createRoute53ValidationRecords_def)
    then have "grows isRoute53 s1 s'" by (rule validationRecords_grows)
    with c1 show ?thesis by (auto simp: grows_def)
  qed
qed

text \<open>
  The poll loop: what it calls, and that it ends in the time-out error when every
  describe call answers PendingValidation.
\<close>

lemma pollCertificate_grows:
  "pollCertificate env certArn deadline attempts s = (r, s') \<Longrightarrow> grows (isPoll certArn) s s'"
proof (induction env certArn deadline attempts s rule: pollCertificate.induct)
  case (1 env certArn deadline attempts s)
  show ?case
  proof (cases "deadline < now s")
    case True
    with "1.prems" show ?thesis
      by (simp add: pollCertificate.simps grows_refl)
  next
    case False
    obtain a s1 where p:
      "perform (DescribeCertificate certArn) (acmDescribeCertificate env certArn) s = (a, s1)"
      by (metis surj_pair)
    have g1: "grows (isPoll certArn) s s1"
      using p by (rule grows_perform) simp
    show ?thesis
    proof (cases a)
      case (Inl err)
      with "1.prems" False p have "s' = s1"
        by (simp add: pollCertificate.simps)
      with g1 show ?thesis by simp
    next
      case (Inr detail)
      have g2: "grows (isPoll certArn) s1 (sleep env interval s1)"
        by (rule grows_sleep) simp
      have step: "Status detail \<noteq> Issued \<Longrightarrow> Status detail \<noteq> Failed \<Longrightarrow>
        pollCertificate env certArn deadline (attempts + 1) (sleep env interval s1) = (r, s')"
        using "1.prems" False p Inr
        by (cases "Status detail") (simp_all add: pollCertificate.simps)
      have ih: "Status detail \<noteq> Issued \<Longrightarrow> Status detail \<noteq> Failed \<Longrightarrow>
        grows (isPoll certArn) (sleep env interval s1) s'"
        using "1.IH" [OF False p [symmetric] Inr] step
        by (cases "Status detail") simp_all
      show ?thesis
      proof (cases "Status detail = Issued \<or> Status detail = Failed")
        case True
        with "1.prems" False p Inr have "s' = s1"
          by (auto simp: pollCertificate.simps)
        with g1 show ?thesis by simp
      next
        case False
        with ih g1 g2 show ?thesis by (blast intro: grows_trans)
      qed
    qed
  qed
qed

lemma pollCertificate_pending:
  assumes "pendingUntil env certArn deadline invar" and "invar s"
  shows "\<exists>s'. pollCertificate env certArn deadline attempts s =
                 ((certArn, Some (TimedOut certArn)), s') \<and>
              deadline < now s' \<and> grows (isPoll certArn) s s'"
  using assms
proof (induction env certArn deadline attempts s rule: pollCertificate.induct)
  case (1 env certArn deadline attempts s)
  show ?case
  proof (cases "deadline < now s")
    case True
    then show ?thesis
      by (simp add: pollCertificate.simps grows_refl)
  next
    case False
    then have "invar s \<and> now s \<le> deadline" using "1.prems"(2) by simp
    then obtain detail s1 where p:
      "perform (DescribeCertificate certArn) (acmDescribeCertificate env certArn) s
         = (Inr detail, s1)"
      and st: "Status detail = PendingValidation"
      and next_inv: "invar (sleep env interval s1)"
      using "1.prems"(1) unfolding pendingUntil_def by blast
    from "1.IH"(1) [OF False p [symmetric] refl st "1.prems"(1) next_inv]
    obtain s' where r: "pollCertificate env certArn deadline (attempts + 1) (sleep env interval s1)
                        = ((certArn, Some (TimedOut certArn)), s')"
      and dl: "deadline < now s'"
      and g: "grows (isPoll certArn) (sleep env interval s1) s'"
      by blast
    have eq: "pollCertificate env certArn deadline attempts s
              = pollCertificate env certArn deadline (attempts + 1) (sleep env interval s1)"
      using False p st by (subst pollCertificate.simps) simp
    have g1: "grows (isPoll certArn) s s1"
      using p by (rule grows_perform) simp
    have g2: "grows (isPoll certArn) s1 (sleep env interval s1)"
      by (rule grows_sleep) simp
    from g1 g2 g have "grows (isPoll certArn) s s'"
      by (blast intro: grows_trans)
    with eq r dl show ?thesis by simp
  qed
qed

lemma reuseCheck_grows:
  "reuseCheck env domain cfg s = (r, s') \<Longrightarrow>
   grows (\<lambda>c. c = ListCertificates [Issued, PendingValidation]) s s'"
  by (auto simp: reuseCheck_def listedStatuses_def grows_refl
      split: if_splits prod.splits sum.splits option.splits intro: grows_perform)

lemma ensureCertificate_requests:
  assumes "reuseCheck env domain cfg s = (None, s1)"
  shows "\<exists>rest. calls (snd (ensureCertificate env domain cfg s)) =
                  calls s1 @ RequestCertificate (newRequest domain cfg) # rest"
proof -
  obtain a s2 where p: "perform (RequestCertificate (newRequest domain cfg))
           (acmRequestCertificate env (newRequest domain cfg)) s1 = (a, s2)"
    by (metis surj_pair)
  have c2: "calls s2 = calls s1 @ [RequestCertificate (newRequest domain cfg)]"
    using p by (rule perform_calls)
  show ?thesis
  proof (cases a)
    case (Inl err)
    with assms p c2 show ?thesis by (simp add: ensureCertificate_def)
  next
    case (Inr certArn)
    obtain e s3 where cr: "createRoute53ValidationRecords env certArn (ZoneID cfg) s2 = (e, s3)"
      by (metis surj_pair)
    obtain cs where c3: "calls s3 = calls s2 @ DescribeCertificate certArn # cs"
      using createRoute53ValidationRecords_grows [OF cr] by blast
    show ?thesis
    proof (cases e)
      case (Some err)
      with assms p Inr cr c2 c3 show ?thesis by (simp add: ensureCertificate_def)
    next
      case None
      obtain r s4 where po: "pollCertificate env certArn (now s3 + timeout) 0 s3 = (r, s4)"
        by (metis surj_pair)
      obtain ps where c4: "calls s4 = calls s3 @ ps"
        using pollCertificate_grows [OF po] by (auto simp: grows_def)
      from assms p Inr cr None po c2 c3 c4 show ?thesis
        by (simp add: ensureCertificate_def)
    qed
  qed
qed

section \<open>The annotation resolver\<close>

text \<open>
  Claim C2, where the code departs from it. \<^verbatim>\<open>wildcard\<close> and
  \<^verbatim>\<open>delete-cert-on-ingress-delete\<close> are lower-cased before the comparison with \<^verbatim>\<open>"true"\<close>;
  \<^verbatim>\<open>managed\<close> and \<^verbatim>\<open>fallback-wildcard\<close> are compared as written, so \<^verbatim>\<open>"True"\<close> does not
  enable them, and \<^verbatim>\<open>reuse-existing\<close> is compared with \<^verbatim>\<open>"false"\<close> as written, so
  \<^verbatim>\<open>"False"\<close> does not disable it.
\<close>

theorem boolean_annotations_case:
  "Wildcard (ParseIngressAnnotations [''acm.tedens.dev/wildcard'' \<mapsto> ''True'']) \<and>
   DeleteCertOnIngress
     (ParseIngressAnnotations [''acm.tedens.dev/delete-cert-on-ingress-delete'' \<mapsto> ''TRUE'']) \<and>
   \<not> Managed (ParseIngressAnnotations [''acm.tedens.dev/managed'' \<mapsto> ''True'']) \<and>
   \<not> FallbackWildcard
       (ParseIngressAnnotations [''acm.tedens.dev/fallback-wildcard'' \<mapsto> ''TRUE'']) \<and>
   ReuseExisting (ParseIngressAnnotations [''acm.tedens.dev/reuse-existing'' \<mapsto> ''False'']) \<and>
   ReuseExisting (ParseIngressAnnotations Map.empty) \<and>
   \<not> ReuseExisting (ParseIngressAnnotations [''acm.tedens.dev/reuse-existing'' \<mapsto> ''false''])"
  by (simp add: ParseIngressAnnotations_def lookup_def ToLower_def lowerByte_def)




section \<open>The hosted-zone resolver\<close>

lemma matchZones_best:
  "matchZones domain zones (m, l) = (m', l') \<Longrightarrow>
   (if \<exists>z\<in>set zones. HasSuffix domain (TrimSuffix (ZoneName z) ''.'') \<and>
                      l < length (TrimSuffix (ZoneName z) ''.'')
    then \<exists>before zone after.
           zones = before @ zone # after \<and>
           HasSuffix domain (TrimSuffix (ZoneName zone) ''.'') \<and>
           l < length (TrimSuffix (ZoneName zone) ''.'') \<and>
           m' = ZoneId zone \<and> l' = length (TrimSuffix (ZoneName zone) ''.'') \<and>
           (\<forall>y\<in>set before. HasSuffix domain (TrimSuffix (ZoneName y) ''.'') \<longrightarrow>
               length (TrimSuffix (ZoneName y) ''.'') < l') \<and>
           (\<forall>y\<in>set after. HasSuffix domain (TrimSuffix (ZoneName y) ''.'') \<longrightarrow>
               length (TrimSuffix (ZoneName y) ''.'') \<le> l')
    else m' = m \<and> l' = l)"
proof (induction zones arbitrary: m l)
  case Nil
  then show ?case by simp
next
  case (Cons z zones)
  let ?n = "\<lambda>y. TrimSuffix (ZoneName y) ''.''"
  let ?q = "\<lambda>k y. HasSuffix domain (?n y) \<and> k < length (?n y)"
  show ?case
  proof (cases "?q l z")
    case True
    then have run: "matchZones domain zones (ZoneId z, length (?n z)) = (m', l')"
      using Cons.prems by simp
    note ih = Cons.IH [OF run]
    show ?thesis
    proof (cases "\<exists>y\<in>set zones. ?q (length (?n z)) y")
      case later: True
      with ih obtain before zone after where b:
        "zones = before @ zone # after" "?q (length (?n z)) zone"
        "m' = ZoneId zone" "l' = length (?n zone)"
        "\<forall>y\<in>set before. HasSuffix domain (?n y) \<longrightarrow> length (?n y) < l'"
        "\<forall>y\<in>set after. HasSuffix domain (?n y) \<longrightarrow> length (?n y) \<le> l'"
        by auto
      have "z # zones = (z # before) @ zone # after" using b(1) by simp
      moreover have "?q l zone" using b(2) True by auto
      moreover have "\<forall>y\<in>set (z # before). HasSuffix domain (?n y) \<longrightarrow> length (?n y) < l'"
        using b(2,4,5) by auto
      ultimately have "\<exists>before zone after.
           z # zones = before @ zone # after \<and> ?q l zone \<and>
           m' = ZoneId zone \<and> l' = length (?n zone) \<and>
           (\<forall>y\<in>set before. HasSuffix domain (?n y) \<longrightarrow> length (?n y) < l') \<and>
           (\<forall>y\<in>set after. HasSuffix domain (?n y) \<longrightarrow> length (?n y) \<le> l')"
        using b(3,4,6) by blast
      with True show ?thesis by auto
    next
      case none: False
      with ih have e: "m' = ZoneId z" "l' = length (?n z)" by auto
      have "z # zones = [] @ z # zones" by simp
      moreover have "\<forall>y\<in>set zones. HasSuffix domain (?n y) \<longrightarrow> length (?n y) \<le> l'"
        using none e by auto
      ultimately have "\<exists>before zone after.
           z # zones = before @ zone # after \<and> ?q l zone \<and>
           m' = ZoneId zone \<and> l' = length (?n zone) \<and>
           (\<forall>y\<in>set before. HasSuffix domain (?n y) \<longrightarrow> length (?n y) < l') \<and>
           (\<forall>y\<in>set after. HasSuffix domain (?n y) \<longrightarrow> length (?n y) \<le> l')"
        using True e by (metis empty_iff list.set(1))
      with True show ?thesis by auto
    qed
  next
    case False
    then have run: "matchZones domain zones (m, l) = (m', l')"
      using Cons.prems by auto
    note ih = Cons.IH [OF run]
    show ?thesis
    proof (cases "\<exists>y\<in>set zones. ?q l y")
      case later: True
      with ih obtain before zone after where b:
        "zones = before @ zone # after" "?q l zone"
        "m' = ZoneId zone" "l' = length (?n zone)"
        "\<forall>y\<in>set before. HasSuffix domain (?n y) \<longrightarrow> length (?n y) < l'"
        "\<forall>y\<in>set after. HasSuffix domain (?n y) \<longrightarrow> length (?n y) \<le> l'"
        by auto
      have "z # zones = (z # before) @ zone # after" using b(1) by simp
      moreover have "\<forall>y\<in>set (z # before). HasSuffix domain (?n y) \<longrightarrow> length (?n y) < l'"
        using b(2,4,5) False by auto
      ultimately have "\<exists>before zone after.
           z # zones = before @ zone # after \<and> ?q l zone \<and>
           m' = ZoneId zone \<and> l' = length (?n zone) \<and>
           (\<forall>y\<in>set before. HasSuffix domain (?n y) \<longrightarrow> length (?n y) < l') \<and>
           (\<forall>y\<in>set after. HasSuffix domain (?n y) \<longrightarrow> length (?n y) \<le> l')"
        using b(2,3,4,6) by blast
      with later show ?thesis by auto
    next
      case none: False
      with ih False show ?thesis by auto
    qed
  qed
qed

text \<open>
  Claim C4, as the code has it. The zones come from a successful list call. A zone counts
  when its name, with one trailing dot removed, is not empty and is a suffix of the
  domain. If no zone counts, the resolver fails. Otherwise it selects the first zone of
  greatest length among those that count: every zone before it whose name is a suffix is
  strictly shorter, every zone after it is at most as long. It returns that zone's
  identifier with a leading \<^verbatim>\<open>/hostedzone/\<close> removed, and fails when that identifier is
  empty.
\<close>

theorem longest_suffix_zone:
  assumes "r53ListHostedZones env (world s) = (Inr zones, d, w)"
  shows "(if \<exists>z\<in>set zones. TrimSuffix (ZoneName z) ''.'' \<noteq> [] \<and>
                            HasSuffix domain (TrimSuffix (ZoneName z) ''.'')
          then \<exists>before zone after.
                 zones = before @ zone # after \<and>
                 TrimSuffix (ZoneName zone) ''.'' \<noteq> [] \<and>
                 HasSuffix domain (TrimSuffix (ZoneName zone) ''.'') \<and>
                 (\<forall>y\<in>set before. HasSuffix domain (TrimSuffix (ZoneName y) ''.'') \<longrightarrow>
                     length (TrimSuffix (ZoneName y) ''.'')
                       < length (TrimSuffix (ZoneName zone) ''.'')) \<and>
                 (\<forall>y\<in>set after. HasSuffix domain (TrimSuffix (ZoneName y) ''.'') \<longrightarrow>
                     length (TrimSuffix (ZoneName y) ''.'')
                       \<le> length (TrimSuffix (ZoneName zone) ''.'')) \<and>
                 fst (findMatchingHostedZone env domain s) =
                   (if ZoneId zone = [] then ([], Some (NoMatchingZone domain))
                    else (TrimPrefix (ZoneId zone) ''/hostedzone/'', None))
          else fst (findMatchingHostedZone env domain s) = ([], Some (NoMatchingZone domain)))"
proof -
  let ?n = "\<lambda>y. TrimSuffix (ZoneName y) ''.''"
  obtain m' l' where run: "matchZones domain zones ([], 0) = (m', l')"
    by (metis surj_pair)
  have res: "fst (findMatchingHostedZone env domain s) =
               (if m' = [] then ([], Some (NoMatchingZone domain))
                else (TrimPrefix m' ''/hostedzone/'', None))"
    using assms run by (simp add: findMatchingHostedZone_def perform_def)
  note best = matchZones_best [OF run]
  show ?thesis
  proof (cases "\<exists>z\<in>set zones. ?n z \<noteq> [] \<and> HasSuffix domain (?n z)")
    case True
    then have "\<exists>z\<in>set zones. HasSuffix domain (?n z) \<and> 0 < length (?n z)" by auto
    with best obtain before zone after where b:
      "zones = before @ zone # after" "HasSuffix domain (?n zone)" "0 < length (?n zone)"
      "m' = ZoneId zone" "l' = length (?n zone)"
      "\<forall>y\<in>set before. HasSuffix domain (?n y) \<longrightarrow> length (?n y) < l'"
      "\<forall>y\<in>set after. HasSuffix domain (?n y) \<longrightarrow> length (?n y) \<le> l'"
      by auto
    have "zones = before @ zone # after \<and> ?n zone \<noteq> [] \<and> HasSuffix domain (?n zone) \<and>
          (\<forall>y\<in>set before. HasSuffix domain (?n y) \<longrightarrow> length (?n y) < length (?n zone)) \<and>
          (\<forall>y\<in>set after. HasSuffix domain (?n y) \<longrightarrow> length (?n y) \<le> length (?n zone)) \<and>
          fst (findMatchingHostedZone env domain s) =
                   (if ZoneId zone = [] then ([], Some (NoMatchingZone domain))
                    else (TrimPrefix (ZoneId zone) ''/hostedzone/'', None))"
      using b res by auto
    then have "\<exists>before zone after. zones = before @ zone # after \<and> ?n zone \<noteq> [] \<and>
          HasSuffix domain (?n zone) \<and>
          (\<forall>y\<in>set before. HasSuffix domain (?n y) \<longrightarrow> length (?n y) < length (?n zone)) \<and>
          (\<forall>y\<in>set after. HasSuffix domain (?n y) \<longrightarrow> length (?n y) \<le> length (?n zone)) \<and>
          fst (findMatchingHostedZone env domain s) =
                   (if ZoneId zone = [] then ([], Some (NoMatchingZone domain))
                    else (TrimPrefix (ZoneId zone) ''/hostedzone/'', None))"
      by blast
    then show ?thesis by (subst if_P [OF True])
  next
    case False
    then have "\<not> (\<exists>z\<in>set zones. HasSuffix domain (?n z) \<and> 0 < length (?n z))" by auto
    with best have "m' = []" by auto
    with res have "fst (findMatchingHostedZone env domain s) = ([], Some (NoMatchingZone domain))"
      by simp
    then show ?thesis by (subst if_not_P [OF False])
  qed
qed

theorem longest_suffix_zone_witness:
  "fst (findMatchingHostedZone (exampleClients liveIngress [] pendingDetail zoneList)
          ''www.foo.example.com'' start) = (''Z2'', None) \<and>
   fst (findMatchingHostedZone (exampleClients liveIngress [] pendingDetail zoneList)
          ''www.example.net'' start) = ([], Some (NoMatchingZone ''www.example.net''))"
proof -
  let ?env = "exampleClients liveIngress [] pendingDetail zoneList"
  let ?n = "\<lambda>y. TrimSuffix (ZoneName y) ''.''"
  have l: "r53ListHostedZones ?env (world start) = (Inr zoneList, 1, ())"
    by (simp add: exampleClients_def)
  have no: "\<not> (\<exists>z\<in>set zoneList. ?n z \<noteq> [] \<and> HasSuffix ''www.example.net'' (?n z))"
    by (simp add: zoneList_def TrimSuffix_def HasSuffix_def)
  from longest_suffix_zone [OF l, of "''www.example.net''"] no
  have r2: "fst (findMatchingHostedZone ?env ''www.example.net'' start)
            = ([], Some (NoMatchingZone ''www.example.net''))"
    by (simp only: if_False)
  have yes: "\<exists>z\<in>set zoneList. ?n z \<noteq> [] \<and> HasSuffix ''www.foo.example.com'' (?n z)"
    by (simp add: zoneList_def TrimSuffix_def HasSuffix_def)
  from longest_suffix_zone [OF l, of "''www.foo.example.com''"] yes
  obtain before zone after where b: "zoneList = before @ zone # after"
    "HasSuffix ''www.foo.example.com'' (?n zone)"
    "\<forall>y\<in>set before. HasSuffix ''www.foo.example.com'' (?n y) \<longrightarrow> length (?n y) < length (?n zone)"
    "\<forall>y\<in>set after. HasSuffix ''www.foo.example.com'' (?n y) \<longrightarrow> length (?n y) \<le> length (?n zone)"
    "fst (findMatchingHostedZone ?env ''www.foo.example.com'' start) =
       (if ZoneId zone = [] then ([], Some (NoMatchingZone ''www.foo.example.com''))
        else (TrimPrefix (ZoneId zone) ''/hostedzone/'', None))"
    by (simp only: if_True) blast
  define z1 z2 z3 z4 where "z1 = zoneList ! 0" and "z2 = zoneList ! 1"
    and "z3 = zoneList ! 2" and "z4 = zoneList ! 3"
  have zl: "zoneList = [z1, z2, z3, z4]"
    by (simp add: z1_def z2_def z3_def z4_def zoneList_def)
  have f1: "length (?n z1) = 11" and f2: "HasSuffix ''www.foo.example.com'' (?n z2)"
    and f3: "length (?n z2) = 15" and f4: "length (?n z3) = 15"
    and f5: "\<not> HasSuffix ''www.foo.example.com'' (?n z4)"
    by (simp_all add: z1_def z2_def z3_def z4_def zoneList_def TrimSuffix_def HasSuffix_def)
  have "[z1, z2, z3, z4] = before @ zone # after" using b(1) zl by simp
  then have split: "(before = [] \<and> zone = z1 \<and> after = [z2, z3, z4]) \<or>
      (before = [z1] \<and> zone = z2 \<and> after = [z3, z4]) \<or>
      (before = [z1, z2] \<and> zone = z3 \<and> after = [z4]) \<or>
      (before = [z1, z2, z3] \<and> zone = z4 \<and> after = [])"
    by (auto simp: Cons_eq_append_conv)
  have "zone = z2"
    using split b(2,3,4) f1 f2 f3 f4 f5 by auto
  then have "zone = zoneList ! 1" by (simp add: z2_def)
  then have "ZoneId zone = ''/hostedzone/Z2''" by (simp add: zoneList_def)
  with b(5) have r1: "fst (findMatchingHostedZone ?env ''www.foo.example.com'' start) = (''Z2'', None)"
    by (simp add: TrimPrefix_def HasPrefix_def)
  from r1 r2 show ?thesis by simp
qed

theorem empty_zone_name_counterexample:
  "HasSuffix ''example.com'' (TrimSuffix (ZoneName rootZone) ''.'') \<and>
   fst (findMatchingHostedZone (exampleClients liveIngress [] pendingDetail [rootZone])
          ''example.com'' start) = ([], Some (NoMatchingZone ''example.com''))"
  by (simp add: rootZone_def TrimSuffix_def HasSuffix_def findMatchingHostedZone_def
      perform_def exampleClients_def)

section \<open>The DNS validation records\<close>

lemma validationRecords_at_most_once:
  "validationRecords env zoneID opts seen s = (r, s') \<Longrightarrow>
   \<exists>cs. calls s' = calls s @ cs \<and> length (filter (isUpsertOf rr) cs) \<le> 1 \<and>
        (recordKey rr \<in> seen \<longrightarrow> filter (isUpsertOf rr) cs = [])"
proof (induction opts arbitrary: seen s)
  case Nil
  then show ?case by simp
next
  case (Cons opt opts)
  from Cons.prems show ?case
  proof (cases rule: validationRecords_Cons_cases)
    case skip
    from Cons.IH [OF skip(2)] show ?thesis .
  next
    case (stop rr' cs)
    then show ?thesis by (simp add: filter_only_list)
  next
    case (failed rr' zone cs)
    have "filter (isUpsertOf rr) (cs @ [ChangeResourceRecordSets (upsert zone rr')]) =
          (if rr = rr' then [ChangeResourceRecordSets (upsert zone rr')] else [])"
      using failed(5) by (simp add: filter_only_list isUpsertOf_upsert del: isUpsertOf.simps)
    with failed(2,4) show ?thesis by auto
  next
    case (continued rr' zone cs s2)
    from Cons.IH [OF continued(5)] obtain cs2 where c: "calls s' = calls s2 @ cs2"
      and le: "length (filter (isUpsertOf rr) cs2) \<le> 1"
      and no: "recordKey rr \<in> insert (recordKey rr') seen \<longrightarrow> filter (isUpsertOf rr) cs2 = []"
      by blast
    have f: "filter (isUpsertOf rr) (cs @ [ChangeResourceRecordSets (upsert zone rr')] @ cs2) =
          (if rr = rr' then [ChangeResourceRecordSets (upsert zone rr')] else [])
            @ filter (isUpsertOf rr) cs2"
      using continued(4) by (simp add: filter_only_list isUpsertOf_upsert del: isUpsertOf.simps)
    have "calls s' = calls s @ (cs @ [ChangeResourceRecordSets (upsert zone rr')] @ cs2)"
      using c continued(3) by simp
    moreover have "length (filter (isUpsertOf rr)
        (cs @ [ChangeResourceRecordSets (upsert zone rr')] @ cs2)) \<le> 1"
      using f le no by auto
    moreover have "recordKey rr \<in> seen \<longrightarrow> filter (isUpsertOf rr)
        (cs @ [ChangeResourceRecordSets (upsert zone rr')] @ cs2) = []"
      using f no continued(2) by auto
    ultimately show ?thesis by blast
  qed
qed

lemma validationRecords_exactly_once:
  "validationRecords env zoneID opts seen s = (None, s') \<Longrightarrow>
   inj_on recordKey (descriptors opts) \<Longrightarrow> rr \<in> descriptors opts \<Longrightarrow>
   recordKey rr \<notin> seen \<Longrightarrow>
   \<exists>cs. calls s' = calls s @ cs \<and> length (filter (isUpsertOf rr) cs) = 1"
proof (induction opts arbitrary: seen s)
  case Nil
  then show ?case by (simp add: descriptors_def)
next
  case (Cons opt opts)
  have sub: "descriptors opts \<subseteq> descriptors (opt # opts)"
    by (auto simp: descriptors_def)
  then have inj: "inj_on recordKey (descriptors opts)"
    using Cons.prems(2) by (rule inj_on_subset [rotated])
  from Cons.prems(1) show ?case
  proof (cases rule: validationRecords_Cons_cases)
    case skip
    have "rr \<in> descriptors opts"
      using skip(1) Cons.prems(3,4) by (auto simp: descriptors_def)
    from Cons.IH [OF skip(2) inj this Cons.prems(4)] show ?thesis .
  next
    case (stop rr' cs)
    then show ?thesis by simp
  next
    case (failed rr' zone cs)
    then show ?thesis by simp
  next
    case (continued rr' zone cs s2)
    have f: "\<And>cs2. filter (isUpsertOf rr)
            (cs @ [ChangeResourceRecordSets (upsert zone rr')] @ cs2) =
          (if rr = rr' then [ChangeResourceRecordSets (upsert zone rr')] else [])
            @ filter (isUpsertOf rr) cs2"
      using continued(4) by (simp add: filter_only_list isUpsertOf_upsert del: isUpsertOf.simps)
    show ?thesis
    proof (cases "rr = rr'")
      case True
      from validationRecords_at_most_once [OF continued(5), of rr]
      obtain cs2 where c: "calls s' = calls s2 @ cs2" and no: "filter (isUpsertOf rr) cs2 = []"
        using True by auto
      have "calls s' = calls s @ (cs @ [ChangeResourceRecordSets (upsert zone rr')] @ cs2)"
        using c continued(3) by simp
      moreover have "length (filter (isUpsertOf rr)
          (cs @ [ChangeResourceRecordSets (upsert zone rr')] @ cs2)) = 1"
        using f [of cs2] no True by simp
      ultimately show ?thesis by blast
    next
      case False
      have in': "rr' \<in> descriptors (opt # opts)"
        using continued(1) by (auto simp: descriptors_def)
      have "recordKey rr \<noteq> recordKey rr'"
        using False Cons.prems(2,3) in' by (auto dest: inj_onD)
      then have k: "recordKey rr \<notin> insert (recordKey rr') seen"
        using Cons.prems(4) by simp
      have m: "rr \<in> descriptors opts"
        using False continued(1) Cons.prems(3) by (auto simp: descriptors_def)
      from Cons.IH [OF continued(5) inj m k]
      obtain cs2 where c: "calls s' = calls s2 @ cs2"
        and one: "length (filter (isUpsertOf rr) cs2) = 1"
        by blast
      have "calls s' = calls s @ (cs @ [ChangeResourceRecordSets (upsert zone rr')] @ cs2)"
        using c continued(3) by simp
      moreover have "length (filter (isUpsertOf rr)
          (cs @ [ChangeResourceRecordSets (upsert zone rr')] @ cs2)) = 1"
        using f [of cs2] one False by simp
      ultimately show ?thesis by blast
    qed
  qed
qed

lemma validationRecords_without_record:
  "validationRecords env zoneID (filter (\<lambda>opt. ResourceRecord opt \<noteq> None) opts) seen s =
   validationRecords env zoneID opts seen s"
proof (induction opts arbitrary: seen s)
  case Nil
  show ?case by simp
next
  case (Cons opt opts)
  show ?case
  proof (cases "ResourceRecord opt")
    case None
    then show ?thesis using Cons.IH by simp
  next
    case (Some rr)
    then show ?thesis
      by (simp add: Cons.IH del: not_None_eq cong: prod.case_cong sum.case_cong option.case_cong if_cong)
  qed
qed

text \<open>
  Claim C6, as the code has it. The certificate's validation options come from a successful
  describe call. In every pass, for every record descriptor, at most one upsert call for
  that record is made. When the pass returns no error, and no record name or record type
  holds the byte \<^verbatim>\<open>|\<close> that separates the parts of the deduplication key, exactly one
  upsert call is made for the record of every option that has one, however many options
  carry it. Options without a record are skipped: the pass is the one over the options
  that have a record.
\<close>

theorem one_upsert_per_record:
  assumes "perform (DescribeCertificate certArn) (acmDescribeCertificate env certArn) s
           = (Inr detail, s1)"
    and "createRoute53ValidationRecords env certArn zoneID s = (r, s')"
  shows "(\<forall>rr. length (filter (isUpsertOf rr) (newCalls s s')) \<le> 1) \<and>
         (r = None \<and>
          (\<forall>rr\<in>descriptors (DomainValidationOptions detail).
              CHR ''|'' \<notin> set (RecordName rr) \<and> CHR ''|'' \<notin> set (RecordType rr)) \<longrightarrow>
          (\<forall>rr\<in>descriptors (DomainValidationOptions detail).
              length (filter (isUpsertOf rr) (newCalls s s')) = 1)) \<and>
         (r, s') = validationRecords env zoneID
                     (filter (\<lambda>opt. ResourceRecord opt \<noteq> None) (DomainValidationOptions detail))
                     {} s1"
proof -
  let ?opts = "DomainValidationOptions detail"
  have run: "validationRecords env zoneID ?opts {} s1 = (r, s')"
    using assms by (simp add: createRoute53ValidationRecords_def)
  have c1: "calls s1 = calls s @ [DescribeCertificate certArn]"
    using assms(1) by (rule perform_calls)
  have new: "\<And>cs. calls s' = calls s1 @ cs \<Longrightarrow>
      filter (isUpsertOf rr) (newCalls s s') = filter (isUpsertOf rr) cs" for rr
    using c1 by (simp add: newCalls_def)
  have a: "\<forall>rr. length (filter (isUpsertOf rr) (newCalls s s')) \<le> 1"
  proof
    fix rr
    from validationRecords_at_most_once [OF run, of rr]
    obtain cs where "calls s' = calls s1 @ cs" "length (filter (isUpsertOf rr) cs) \<le> 1"
      by blast
    then show "length (filter (isUpsertOf rr) (newCalls s s')) \<le> 1"
      using new by simp
  qed
  have b: "\<forall>rr\<in>descriptors ?opts. length (filter (isUpsertOf rr) (newCalls s s')) = 1"
    if ok: "r = None"
      and free: "\<forall>rr\<in>descriptors ?opts.
              CHR ''|'' \<notin> set (RecordName rr) \<and> CHR ''|'' \<notin> set (RecordType rr)"
  proof
    fix rr
    assume rr: "rr \<in> descriptors ?opts"
    have inj: "inj_on recordKey (descriptors ?opts)"
      using free by (rule recordKey_inj_on)
    from validationRecords_exactly_once [OF run [unfolded ok] inj rr]
    obtain cs where "calls s' = calls s1 @ cs" "length (filter (isUpsertOf rr) cs) = 1"
      by auto
    then show "length (filter (isUpsertOf rr) (newCalls s s')) = 1"
      using new by simp
  qed
  have c: "(r, s') = validationRecords env zoneID
                     (filter (\<lambda>opt. ResourceRecord opt \<noteq> None) ?opts) {} s1"
    using run by (simp only: validationRecords_without_record)
  from a b c show ?thesis by blast
qed

theorem one_upsert_per_record_witness:
  "descriptors (DomainValidationOptions detailWithThree) = {exampleRecord} \<and>
   createRoute53ValidationRecords (exampleClients liveIngress [] detailWithThree zoneList)
       ''arn:new'' [] start =
     (None, \<lparr>world = (), now = 3,
             calls = [DescribeCertificate ''arn:new'', ListHostedZones,
                      ChangeResourceRecordSets (upsert ''Z2'' exampleRecord)]\<rparr>) \<and>
   length (filter (isUpsertOf exampleRecord)
     (newCalls start (snd (createRoute53ValidationRecords
        (exampleClients liveIngress [] detailWithThree zoneList) ''arn:new'' [] start)))) = 1"
proof -
  let ?env = "exampleClients liveIngress [] detailWithThree zoneList"
  let ?s1 = "\<lparr>world = (), now = 1, calls = [DescribeCertificate ''arn:new'']\<rparr>"
  let ?s' = "\<lparr>world = (), now = 3,
             calls = [DescribeCertificate ''arn:new'', ListHostedZones,
                      ChangeResourceRecordSets (upsert ''Z2'' exampleRecord)]\<rparr>"
  have d: "descriptors (DomainValidationOptions detailWithThree) = {exampleRecord}"
    by (auto simp: descriptors_def detailWithThree_def)
  have p: "perform (DescribeCertificate ''arn:new'') (acmDescribeCertificate ?env ''arn:new'') start
           = (Inr detailWithThree, ?s1)"
    by (simp add: example_simps)
  have run: "createRoute53ValidationRecords ?env ''arn:new'' [] start = (None, ?s')"
    by (simp add: example_simps more_simps detailWithThree_def zoneList_def
        TrimSuffix_def HasSuffix_def TrimPrefix_def HasPrefix_def)
  have free: "\<forall>rr\<in>descriptors (DomainValidationOptions detailWithThree).
              CHR ''|'' \<notin> set (RecordName rr) \<and> CHR ''|'' \<notin> set (RecordType rr)"
    unfolding d by (simp add: exampleRecord_def)
  from one_upsert_per_record [OF p run] free d
  have "length (filter (isUpsertOf exampleRecord) (newCalls start ?s')) = 1"
    by blast
  with d run show ?thesis by simp
qed

theorem no_upsert_counterexample:
  "ResourceRecord (DomainValidationOptions detailWithRecord ! 0) = Some exampleRecord \<and>
   ResourceRecord (DomainValidationOptions detailWithRecord ! 1) = Some exampleRecord \<and>
   createRoute53ValidationRecords (exampleClients liveIngress [] detailWithRecord [])
       ''arn:new'' [] start =
     (Some (Errorf ''failed to infer zone'' (NoMatchingZone ''foo.example.com'')),
      \<lparr>world = (), now = 2,
       calls = [DescribeCertificate ''arn:new'', ListHostedZones]\<rparr>) \<and>
   filter (isUpsertOf exampleRecord)
     (calls (snd (createRoute53ValidationRecords
        (exampleClients liveIngress [] detailWithRecord []) ''arn:new'' [] start))) = []"
  by (simp add: example_simps more_simps)

section \<open>The certificate\<close>

text \<open>
  Claim C5. With \<^verbatim>\<open>ReuseExisting\<close> set, when the certificates listed for the statuses
  Issued and PendingValidation contain at position \<open>i\<close> the first one whose domain name
  equals the domain under \<^verbatim>\<open>strings.EqualFold\<close> (equality of the runes up to Unicode
  simple case folding, whatever the case table of the environment), \<^verbatim>\<open>ensureCertificate\<close>
  returns its identifier and no error, and the list call is the only call it made: no
  request, no DNS record, no poll.
\<close>

theorem reuse_returns_first_match:
  assumes "ReuseExisting cfg"
    and "acmListCertificates env [Issued, PendingValidation] (world s) = (Inr out, d, w)"
    and "i < length out"
    and "EqualFold (caseTable env) (DomainName (out ! i)) domain"
    and "\<forall>j<i. \<not> EqualFold (caseTable env) (DomainName (out ! j)) domain"
  shows "ensureCertificate env domain cfg s =
           ((CertificateArn (out ! i), None),
            \<lparr>world = w, now = now s + d,
             calls = calls s @ [ListCertificates [Issued, PendingValidation]]\<rparr>)"
proof -
  have "find (\<lambda>cert. EqualFold (caseTable env) (DomainName cert) domain) out = Some (out ! i)"
    using assms(3-5) by (auto simp: find_Some_iff)
  then show ?thesis
    using assms(1,2)
    by (simp add: ensureCertificate_def reuseCheck_def listedStatuses_def perform_def)
qed

theorem reuse_returns_first_match_witness:
  "ReuseExisting (ParseIngressAnnotations (Annotations liveIngress)) \<and>
   \<not> EqualFold asciiOrbits (DomainName (certList ! 0)) ''a.example.com'' \<and>
   EqualFold asciiOrbits (DomainName (certList ! 1)) ''a.example.com'' \<and>
   ensureCertificate (exampleClients liveIngress certList pendingDetail []) ''a.example.com''
       (ParseIngressAnnotations (Annotations liveIngress)) start =
     ((''arn:old'', None),
      \<lparr>world = (), now = 1, calls = [ListCertificates [Issued, PendingValidation]]\<rparr>) \<and>
   EqualFold asciiOrbits (DomainName (kelvinList ! 0)) ''k.example.com'' \<and>
   ensureCertificate (exampleClients liveIngress kelvinList pendingDetail []) ''k.example.com''
       (ParseIngressAnnotations (Annotations liveIngress)) start =
     ((''arn:kelvin'', None),
      \<lparr>world = (), now = 1, calls = [ListCertificates [Issued, PendingValidation]]\<rparr>)"
proof -
  let ?env = "exampleClients liveIngress certList pendingDetail []"
  let ?kenv = "exampleClients liveIngress kelvinList pendingDetail []"
  have r: "ReuseExisting (ParseIngressAnnotations (Annotations liveIngress))"
    by (simp add: example_simps more_simps)
  have l: "acmListCertificates ?env [Issued, PendingValidation] (world start) = (Inr certList, 1, ())"
    by (simp add: example_simps)
  have i: "1 < length certList" by (simp add: certList_def)
  have m: "EqualFold (caseTable ?env) (DomainName (certList ! 1)) ''a.example.com''"
    by (simp add: example_simps more_simps)
  have n: "\<forall>j<1. \<not> EqualFold (caseTable ?env) (DomainName (certList ! j)) ''a.example.com''"
    by (simp add: example_simps more_simps)
  have kl: "acmListCertificates ?kenv [Issued, PendingValidation] (world start) =
            (Inr kelvinList, 1, ())"
    by (simp add: example_simps)
  have ki: "0 < length kelvinList" by (simp add: kelvinList_def)
  have km: "EqualFold (caseTable ?kenv) (DomainName (kelvinList ! 0)) ''k.example.com''"
    by (simp add: kelvinList_def example_simps)
  have kn: "\<forall>j<0. \<not> EqualFold (caseTable ?kenv) (DomainName (kelvinList ! j)) ''k.example.com''"
    by simp
  have t: "caseTable ?env = asciiOrbits" "caseTable ?kenv = asciiOrbits"
    by (simp_all add: exampleClients_def)
  from reuse_returns_first_match [OF r l i m n] reuse_returns_first_match [OF r kl ki km kn]
    r m n km
  show ?thesis
    unfolding t by (simp add: start_def exampleCert_def certList_def kelvinList_def)
qed

text \<open>
  Claim C10. \<^verbatim>\<open>strings.EqualFold\<close> never equates \<open>*.domain\<close> with \<open>domain\<close>, whatever the
  bytes of the domain and the case table: it compares rune by rune, and \<open>*.domain\<close> has
  two runes more. So with \<^verbatim>\<open>Wildcard\<close>
  and \<^verbatim>\<open>ReuseExisting\<close> set, when every listed certificate is the one for \<open>*.domain\<close> or
  does not match the bare domain, the reuse check (which compares with the bare domain)
  falls through, and the call after the list call is a certificate request for \<open>*.domain\<close>.
\<close>

theorem wildcard_certificate_is_not_reused:
  assumes "Wildcard cfg" and "ReuseExisting cfg"
    and "acmListCertificates env [Issued, PendingValidation] (world s) = (Inr out, d, w)"
    and "\<forall>cert\<in>set out. DomainName cert = ''*.'' @ domain \<or>
                          \<not> EqualFold (caseTable env) (DomainName cert) domain"
  shows "\<not> EqualFold (caseTable env) (''*.'' @ domain) domain \<and>
         reuseCheck env domain cfg s =
           (None, \<lparr>world = w, now = now s + d,
                   calls = calls s @ [ListCertificates [Issued, PendingValidation]]\<rparr>) \<and>
         RequestDomainName (newRequest domain cfg) = ''*.'' @ domain \<and>
         (\<exists>rest. calls (snd (ensureCertificate env domain cfg s)) =
                   calls s @ [ListCertificates [Issued, PendingValidation],
                              RequestCertificate (newRequest domain cfg)] @ rest)"
proof -
  have nf: "\<not> EqualFold (caseTable env) (''*.'' @ domain) domain"
    by (rule EqualFold_wildcard)
  have "\<forall>cert\<in>set out. \<not> EqualFold (caseTable env) (DomainName cert) domain"
    using assms(4) nf by auto
  then have "find (\<lambda>cert. EqualFold (caseTable env) (DomainName cert) domain) out = None"
    by (simp add: find_None_iff)
  then have rc: "reuseCheck env domain cfg s =
           (None, \<lparr>world = w, now = now s + d,
                   calls = calls s @ [ListCertificates [Issued, PendingValidation]]\<rparr>)"
    using assms(2,3) by (simp add: reuseCheck_def listedStatuses_def perform_def)
  have rq: "RequestDomainName (newRequest domain cfg) = ''*.'' @ domain"
    using assms(1) by (simp add: newRequest_def)
  from ensureCertificate_requests [OF rc] nf rc rq show ?thesis by simp
qed

theorem wildcard_certificate_is_not_reused_witness:
  "Wildcard (ParseIngressAnnotations (Annotations wildcardIngress)) \<and>
   ReuseExisting (ParseIngressAnnotations (Annotations wildcardIngress)) \<and>
   DomainName wildcardCert = ''*.example.com'' \<and>
   (\<exists>rest. calls (snd (ensureCertificate
                 (exampleClients wildcardIngress [wildcardCert] pendingDetail [])
                 ''example.com'' (ParseIngressAnnotations (Annotations wildcardIngress)) start)) =
       [ListCertificates [Issued, PendingValidation],
        RequestCertificate
          \<lparr>RequestDomainName = ''*.example.com'', ValidationMethod = ''DNS'',
           SubjectAlternativeNames = [], Tags = [(''ManagedBy'', ''acm-manager'')]\<rparr>] @ rest)"
proof -
  let ?env = "exampleClients wildcardIngress [wildcardCert] pendingDetail []"
  let ?cfg = "ParseIngressAnnotations (Annotations wildcardIngress)"
  have a: "Wildcard ?cfg" and b: "ReuseExisting ?cfg"
    by (simp_all add: wildcardIngress_def example_simps)
  have l: "acmListCertificates ?env [Issued, PendingValidation] (world start)
           = (Inr [wildcardCert], 1, ())"
    by (simp add: example_simps)
  have h: "\<forall>cert\<in>set [wildcardCert]. DomainName cert = ''*.'' @ ''example.com'' \<or>
             \<not> EqualFold (caseTable ?env) (DomainName cert) ''example.com''"
    by (simp add: wildcardCert_def)
  have n: "newRequest ''example.com'' ?cfg =
          \<lparr>RequestDomainName = ''*.example.com'', ValidationMethod = ''DNS'',
           SubjectAlternativeNames = [], Tags = [(''ManagedBy'', ''acm-manager'')]\<rparr>"
    by (simp add: wildcardIngress_def example_simps more_simps)
  from wildcard_certificate_is_not_reused [OF a b l h] a b n show ?thesis
    by (simp add: wildcardCert_def start_def)
qed

text \<open>
  Claim C9. The reuse check fell through, the certificate request answered \<open>certArn\<close>, and
  \<^verbatim>\<open>createRoute53ValidationRecords\<close> returned an error. Then \<^verbatim>\<open>ensureCertificate\<close> returns
  the pair of \<open>certArn\<close> and that error in the very state the record creation left. After the
  request the calls are the one describe call of the record creation and Route 53 calls:
  the pass never slept or polled, and it deleted no certificate.
\<close>

theorem record_failure_returns_identifier:
  assumes "reuseCheck env domain cfg s = (None, s1)"
    and "perform (RequestCertificate (newRequest domain cfg))
           (acmRequestCertificate env (newRequest domain cfg)) s1 = (Inr certArn, s2)"
    and "createRoute53ValidationRecords env certArn (ZoneID cfg) s2 = (Some err, s3)"
  shows "ensureCertificate env domain cfg s = ((certArn, Some err), s3) \<and>
         (\<exists>cs. calls s3 = calls s1 @ [RequestCertificate (newRequest domain cfg),
                                        DescribeCertificate certArn] @ cs \<and>
               list_all isRoute53 cs) \<and>
         filter isSleep (calls s3) = filter isSleep (calls s) \<and>
         filter isDeleteCertificate (calls s3) = filter isDeleteCertificate (calls s)"
proof -
  have r: "ensureCertificate env domain cfg s = ((certArn, Some err), s3)"
    using assms by (simp add: ensureCertificate_def)
  have c2: "calls s2 = calls s1 @ [RequestCertificate (newRequest domain cfg)]"
    using assms(2) by (rule perform_calls)
  obtain cs where c3: "calls s3 = calls s2 @ DescribeCertificate certArn # cs"
    and rs: "list_all isRoute53 cs"
    using createRoute53ValidationRecords_grows [OF assms(3)] by blast
  have g1: "grows (\<lambda>c. c = ListCertificates [Issued, PendingValidation]) s s1"
    using assms(1) by (rule reuseCheck_grows)
  have sl1: "filter isSleep (calls s1) = filter isSleep (calls s)"
    using g1 by (rule grows_filter_none) simp
  have de1: "filter isDeleteCertificate (calls s1) = filter isDeleteCertificate (calls s)"
    using g1 by (rule grows_filter_none) simp
  have sl: "filter isSleep cs = []" and de: "filter isDeleteCertificate cs = []"
    using rs isRoute53_not_other by (auto simp: list_all_iff filter_empty_conv)
  show ?thesis
    using r c2 c3 rs sl1 de1 sl de by simp
qed

theorem record_failure_returns_identifier_witness:
  "ensureCertificate (exampleClients noReuseIngress [] detailWithRecord []) ''foo.example.com''
       (ParseIngressAnnotations (Annotations noReuseIngress)) start =
     ((''arn:new'', Some (Errorf ''failed to infer zone'' (NoMatchingZone ''foo.example.com''))),
      \<lparr>world = (), now = 3,
       calls = [RequestCertificate
                  \<lparr>RequestDomainName = ''foo.example.com'', ValidationMethod = ''DNS'',
                   SubjectAlternativeNames = [], Tags = [(''ManagedBy'', ''acm-manager'')]\<rparr>,
                DescribeCertificate ''arn:new'', ListHostedZones]\<rparr>)"
proof -
  let ?env = "exampleClients noReuseIngress [] detailWithRecord []"
  let ?cfg = "ParseIngressAnnotations (Annotations noReuseIngress)"
  let ?s2 = "\<lparr>world = (), now = 1,
       calls = [RequestCertificate (newRequest ''foo.example.com'' ?cfg)]\<rparr>"
  let ?s3 = "\<lparr>world = (), now = 3,
       calls = [RequestCertificate (newRequest ''foo.example.com'' ?cfg),
                DescribeCertificate ''arn:new'', ListHostedZones]\<rparr>"
  have a: "reuseCheck ?env ''foo.example.com'' ?cfg start = (None, start)"
    by (simp add: noReuseIngress_def example_simps more_simps)
  have b: "perform (RequestCertificate (newRequest ''foo.example.com'' ?cfg))
           (acmRequestCertificate ?env (newRequest ''foo.example.com'' ?cfg)) start
           = (Inr ''arn:new'', ?s2)"
    by (simp add: example_simps)
  have c: "createRoute53ValidationRecords ?env ''arn:new'' (ZoneID ?cfg) ?s2 =
           (Some (Errorf ''failed to infer zone'' (NoMatchingZone ''foo.example.com'')), ?s3)"
    by (simp add: noReuseIngress_def example_simps more_simps)
  from record_failure_returns_identifier [OF a b c] show ?thesis
    by (simp add: noReuseIngress_def example_simps more_simps)
qed

section \<open>The reconcile pass\<close>

text \<open>
  Claim C7. When the object read has no \<^verbatim>\<open>acm.tedens.dev/managed\<close> annotation, or one whose
  value is not \<^verbatim>\<open>"true"\<close>, the configuration has \<open>Managed = False\<close> and the reconcile pass
  returns the empty result (no requeue) and no error, having made one call, the read of
  the object: no update, no patch, no ACM or Route 53 call. Nothing is asked of the other
  annotations, the deletion timestamp or the finalizers.
\<close>

theorem unmanaged_is_noop:
  assumes "k8sGet env req (world s) = (Inr ingress, d, w)"
    and "Annotations ingress ''acm.tedens.dev/managed'' \<noteq> Some ''true''"
  shows "\<not> Managed (ParseIngressAnnotations (Annotations ingress)) \<and>
         Reconcile env req s =
           ((\<lparr>Requeue = False, RequeueAfter = 0\<rparr>, None),
            \<lparr>world = w, now = now s + d, calls = calls s @ [Get req]\<rparr>)"
proof -
  have m: "\<not> Managed (ParseIngressAnnotations (Annotations ingress))"
    using assms(2) by (auto simp: ParseIngressAnnotations_def lookup_def split: option.splits)
  show ?thesis
    using m assms(1) by (simp add: Reconcile_def perform_def noRequeue_def)
qed

theorem unmanaged_is_noop_witness:
  "Annotations unmanagedIngress ''acm.tedens.dev/managed'' \<noteq> Some ''true'' \<and>
   Reconcile (exampleClients unmanagedIngress [] pendingDetail []) ''default/web'' start =
     ((\<lparr>Requeue = False, RequeueAfter = 0\<rparr>, None),
      \<lparr>world = (), now = 1, calls = [Get ''default/web'']\<rparr>)"
proof -
  have g: "k8sGet (exampleClients unmanagedIngress [] pendingDetail []) ''default/web'' (world start)
           = (Inr unmanagedIngress, 1, ())"
    by (simp add: exampleClients_def)
  have a: "Annotations unmanagedIngress ''acm.tedens.dev/managed'' \<noteq> Some ''true''"
    by (simp add: unmanagedIngress_def)
  show ?thesis
    using unmanaged_is_noop [OF g a] a by (simp add: start_def)
qed

text \<open>
  Claim C1. The object read is managed, has a deletion timestamp and carries the finalizer.
  If \<^verbatim>\<open>DeleteCertOnIngress\<close> is set and \<^verbatim>\<open>deleteCertificateForDomain\<close> returns an error, the
  reconcile pass returns that error in the state the deletion left: no \<^verbatim>\<open>Update\<close> and no
  \<^verbatim>\<open>Patch\<close> was sent, so the finalizers of the object are unchanged. If the deletion
  returned no error, or \<^verbatim>\<open>DeleteCertOnIngress\<close> is not set, the next and last call is the
  \<^verbatim>\<open>Update\<close> of the object without the finalizer (its other finalizers kept), and the
  pass returns what that call returned.
\<close>

theorem finalizer_kept_until_certificate_deleted:
  assumes get: "perform (Get req) (k8sGet env req) s = (Inr ingress, s1)"
    and cfg: "cfg = ParseIngressAnnotations (Annotations ingress)"
    and managed: "Managed cfg"
    and deleting: "\<not> IsZero (DeletionTimestamp ingress)"
    and fin: "ContainsFinalizer ingress ingressFinalizer"
  shows "(DeleteCertOnIngress cfg \<and>
          deleteCertificateForDomain env (selectDomain cfg ingress) s1 = (Some err, s2)
          \<longrightarrow> Reconcile env req s = ((noRequeue, Some err), s2) \<and>
              filter isWrite (calls s2) = filter isWrite (calls s))
       \<and> ((if DeleteCertOnIngress cfg
            then deleteCertificateForDomain env (selectDomain cfg ingress) s1
            else (None, s1)) = (None, s2) \<and>
           perform (Update (RemoveFinalizer ingress ingressFinalizer))
             (k8sUpdate env (RemoveFinalizer ingress ingressFinalizer)) s2 = (answer, s3)
          \<longrightarrow> Reconcile env req s =
                ((noRequeue, case answer of Inl e \<Rightarrow> Some e | Inr stored \<Rightarrow> None), s3) \<and>
              calls s3 = calls s2 @ [Update (RemoveFinalizer ingress ingressFinalizer)] \<and>
              filter isWrite (calls s3) =
                filter isWrite (calls s) @ [Update (RemoveFinalizer ingress ingressFinalizer)] \<and>
              Finalizers (RemoveFinalizer ingress ingressFinalizer) =
                filter (\<lambda>f. f \<noteq> ingressFinalizer) (Finalizers ingress))"
proof (intro conjI impI)
  assume a: "DeleteCertOnIngress cfg \<and>
      deleteCertificateForDomain env (selectDomain cfg ingress) s1 = (Some err, s2)"
  show "Reconcile env req s = ((noRequeue, Some err), s2)"
    using get managed deleting fin a unfolding cfg by (simp add: Reconcile_def Let_def)
  have "filter isWrite (calls s2) = filter isWrite (calls s1)"
    using a deleteCertificateForDomain_writes by blast
  then show "filter isWrite (calls s2) = filter isWrite (calls s)"
    using perform_calls [OF get] by simp
next
  assume a: "(if DeleteCertOnIngress cfg
            then deleteCertificateForDomain env (selectDomain cfg ingress) s1
            else (None, s1)) = (None, s2) \<and>
           perform (Update (RemoveFinalizer ingress ingressFinalizer))
             (k8sUpdate env (RemoveFinalizer ingress ingressFinalizer)) s2 = (answer, s3)"
  show "Reconcile env req s =
          ((noRequeue, case answer of Inl e \<Rightarrow> Some e | Inr stored \<Rightarrow> None), s3)"
    using get managed deleting fin a unfolding cfg
    by (cases answer) (auto simp: Reconcile_def Let_def split: if_splits)
  show c3: "calls s3 = calls s2 @ [Update (RemoveFinalizer ingress ingressFinalizer)]"
    using a perform_calls by blast
  have "filter isWrite (calls s2) = filter isWrite (calls s1)"
    using a deleteCertificateForDomain_writes [of env "selectDomain cfg ingress" s1 None s2]
    by (auto split: if_splits)
  then show "filter isWrite (calls s3) =
      filter isWrite (calls s) @ [Update (RemoveFinalizer ingress ingressFinalizer)]"
    using perform_calls [OF get] c3 by simp
  show "Finalizers (RemoveFinalizer ingress ingressFinalizer) =
      filter (\<lambda>f. f \<noteq> ingressFinalizer) (Finalizers ingress)"
    by (simp add: RemoveFinalizer_def)
qed

theorem finalizer_kept_until_certificate_deleted_witness:
  "Managed (ParseIngressAnnotations (Annotations deletingIngress)) \<and>
   DeleteCertOnIngress (ParseIngressAnnotations (Annotations deletingIngress)) \<and>
   \<not> IsZero (DeletionTimestamp deletingIngress) \<and>
   ContainsFinalizer deletingIngress ingressFinalizer \<and>
   Reconcile deleteFails ''default/web'' start =
     ((noRequeue, Some (ApiError ''AccessDenied'')),
      \<lparr>world = (), now = 3,
       calls = [Get ''default/web'', ListCertificates [Issued, PendingValidation],
                DeleteCertificate ''arn:old'']\<rparr>) \<and>
   Reconcile deleteWorks ''default/web'' start =
     ((noRequeue, None),
      \<lparr>world = (), now = 4,
       calls = [Get ''default/web'', ListCertificates [Issued, PendingValidation],
                DeleteCertificate ''arn:old'',
                Update (deletingIngress\<lparr>Finalizers := [''other/finalizer'']\<rparr>)]\<rparr>)"
proof -
  let ?cfg = "ParseIngressAnnotations (Annotations deletingIngress)"
  let ?s1 = "\<lparr>world = (), now = 1, calls = [Get ''default/web'']\<rparr>"
  let ?s2 = "\<lparr>world = (), now = 3,
       calls = [Get ''default/web'', ListCertificates [Issued, PendingValidation],
                DeleteCertificate ''arn:old'']\<rparr>"
  have m: "Managed ?cfg" and dc: "DeleteCertOnIngress ?cfg"
    and d: "\<not> IsZero (DeletionTimestamp deletingIngress)"
    and f: "ContainsFinalizer deletingIngress ingressFinalizer"
    by (simp_all add: example_simps)
  have g1: "perform (Get ''default/web'') (k8sGet deleteFails ''default/web'') start
            = (Inr deletingIngress, ?s1)"
    by (simp add: deleteFails_def example_simps)
  have g2: "perform (Get ''default/web'') (k8sGet deleteWorks ''default/web'') start
            = (Inr deletingIngress, ?s1)"
    by (simp add: deleteWorks_def example_simps)
  have del1: "deleteCertificateForDomain deleteFails (selectDomain ?cfg deletingIngress) ?s1
              = (Some (ApiError ''AccessDenied''), ?s2)"
    by (simp add: deleteFails_def example_simps)
  have del2: "(if DeleteCertOnIngress ?cfg
               then deleteCertificateForDomain deleteWorks (selectDomain ?cfg deletingIngress) ?s1
               else (None, ?s1)) = (None, ?s2)"
    by (simp add: deleteWorks_def example_simps)
  have up: "perform (Update (RemoveFinalizer deletingIngress ingressFinalizer))
              (k8sUpdate deleteWorks (RemoveFinalizer deletingIngress ingressFinalizer)) ?s2
            = (Inr (deletingIngress\<lparr>Finalizers := [''other/finalizer'']\<rparr>),
               \<lparr>world = (), now = 4,
       calls = [Get ''default/web'', ListCertificates [Issued, PendingValidation],
                DeleteCertificate ''arn:old'',
                Update (deletingIngress\<lparr>Finalizers := [''other/finalizer'']\<rparr>)]\<rparr>)"
    by (simp add: deleteWorks_def example_simps)
  from finalizer_kept_until_certificate_deleted [OF g1 refl m d f,
      of "ApiError ''AccessDenied''" ?s2] dc del1
  have r1: "Reconcile deleteFails ''default/web'' start =
     ((noRequeue, Some (ApiError ''AccessDenied'')), ?s2)"
    by blast
  from finalizer_kept_until_certificate_deleted [OF g2 refl m d f] del2 up
  have r2: "Reconcile deleteWorks ''default/web'' start =
     ((noRequeue, None), \<lparr>world = (), now = 4,
       calls = [Get ''default/web'', ListCertificates [Issued, PendingValidation],
                DeleteCertificate ''arn:old'',
                Update (deletingIngress\<lparr>Finalizers := [''other/finalizer'']\<rparr>)]\<rparr>)"
    by fastforce
  show ?thesis using m dc d f r1 r2 by simp
qed

text \<open>
  Claim C3. A managed object without deletion timestamp is reconciled; the finalizer step
  succeeded, the reuse check fell through, the request answered \<open>certArn\<close> and the
  validation records were created, leaving state \<open>s5\<close>. Every describe call the poll loop
  makes up to the deadline answers PendingValidation: the states in which the loop
  describes satisfy \<open>invar\<close>, which holds in \<open>s5\<close> and which a pending answer followed by
  the sleep preserves. Then \<^verbatim>\<open>ensureCertificate\<close> returns the time-out error for \<open>certArn\<close>,
  after the clock has passed the deadline of ten minutes, having only described and slept
  in between; the reconcile pass returns that error with no requeue and has sent no
  \<^verbatim>\<open>Patch\<close>, so the certificate annotation of the object is as it was.
\<close>

theorem pending_until_deadline_times_out:
  assumes get: "perform (Get req) (k8sGet env req) s = (Inr ingress, s1)"
    and cfg: "cfg = ParseIngressAnnotations (Annotations ingress)"
    and managed: "Managed cfg"
    and live: "IsZero (DeletionTimestamp ingress)"
    and finalizer: "(if \<not> ContainsFinalizer ingress ingressFinalizer
                     then perform (Update (AddFinalizer ingress ingressFinalizer))
                            (k8sUpdate env (AddFinalizer ingress ingressFinalizer)) s1
                     else (Inr ingress, s1)) = (Inr ingress2, s2)"
    and domain: "domain = selectDomain cfg ingress"
    and noreuse: "reuseCheck env domain cfg s2 = (None, s3)"
    and request: "perform (RequestCertificate (newRequest domain cfg))
                    (acmRequestCertificate env (newRequest domain cfg)) s3 = (Inr certArn, s4)"
    and records: "createRoute53ValidationRecords env certArn (ZoneID cfg) s4 = (None, s5)"
    and pending: "pendingUntil env certArn (now s5 + timeout) invar"
    and invar: "invar s5"
  shows "\<exists>s'. ensureCertificate env domain cfg s2 = ((certArn, Some (TimedOut certArn)), s') \<and>
              Reconcile env req s = ((noRequeue, Some (TimedOut certArn)), s') \<and>
              now s5 + timeout < now s' \<and>
              (\<exists>polls. calls s' = calls s5 @ polls \<and> list_all (isPoll certArn) polls) \<and>
              filter isPatch (calls s') = filter isPatch (calls s)"
proof -
  obtain s' where po: "pollCertificate env certArn (now s5 + timeout) 0 s5 =
                         ((certArn, Some (TimedOut certArn)), s')"
    and dl: "now s5 + timeout < now s'" and g: "grows (isPoll certArn) s5 s'"
    using pollCertificate_pending [OF pending invar] by blast
  have e: "ensureCertificate env domain cfg s2 = ((certArn, Some (TimedOut certArn)), s')"
    using noreuse request records po by (simp add: ensureCertificate_def)
  have r: "Reconcile env req s = ((noRequeue, Some (TimedOut certArn)), s')"
    using get managed live finalizer e unfolding cfg domain
    by (simp add: Reconcile_def Let_def)
  have p1: "filter isPatch (calls s1) = filter isPatch (calls s)"
    using perform_calls [OF get] by simp
  have p2: "filter isPatch (calls s2) = filter isPatch (calls s1)"
    using finalizer by (auto split: if_splits dest!: perform_calls)
  have p3: "filter isPatch (calls s3) = filter isPatch (calls s2)"
    using reuseCheck_grows [OF noreuse] by (rule grows_filter_none) simp
  have p4: "filter isPatch (calls s4) = filter isPatch (calls s3)"
    using perform_calls [OF request] by simp
  have p5: "filter isPatch (calls s5) = filter isPatch (calls s4)"
    using createRoute53ValidationRecords_grows [OF records] isRoute53_not_other
    by (auto simp: list_all_iff filter_empty_conv)
  have p6: "filter isPatch (calls s') = filter isPatch (calls s5)"
    using g by (rule grows_filter_none) (simp add: isPoll_not_other)
  from g obtain polls where "calls s' = calls s5 @ polls \<and> list_all (isPoll certArn) polls"
    by (auto simp: grows_def)
  with e r dl p1 p2 p3 p4 p5 p6 show ?thesis by auto
qed

theorem pending_until_deadline_times_out_witness:
  "pendingUntil lateIssue ''arn:new'' (5 + timeout) (\<lambda>s. world s = now s) \<and>
   (\<exists>s'. Reconcile lateIssue ''default/web'' startClock =
            ((noRequeue, Some (TimedOut ''arn:new'')), s') \<and>
          5 + timeout < now s' \<and> filter isPatch (calls s') = [])"
proof -
  let ?cfg = "ParseIngressAnnotations (Annotations liveIngress)"
  let ?with = "liveIngress\<lparr>Finalizers := [ingressFinalizer]\<rparr>"
  let ?s1 = "\<lparr>world = 1, now = 1, calls = [Get ''default/web'']\<rparr> :: nat state"
  let ?s2 = "\<lparr>world = 2, now = 2, calls = [Get ''default/web'', Update ?with]\<rparr> :: nat state"
  let ?s3 = "\<lparr>world = 3, now = 3, calls = [Get ''default/web'', Update ?with,
       ListCertificates [Issued, PendingValidation]]\<rparr> :: nat state"
  let ?s4 = "\<lparr>world = 4, now = 4, calls = [Get ''default/web'', Update ?with,
       ListCertificates [Issued, PendingValidation],
       RequestCertificate (newRequest ''foo.example.com'' ?cfg)]\<rparr> :: nat state"
  let ?s5 = "\<lparr>world = 5, now = 5, calls = [Get ''default/web'', Update ?with,
       ListCertificates [Issued, PendingValidation],
       RequestCertificate (newRequest ''foo.example.com'' ?cfg),
       DescribeCertificate ''arn:new'']\<rparr> :: nat state"
  have pend: "pendingUntil lateIssue ''arn:new'' (5 + timeout) (\<lambda>s. world s = now s)"
    by (auto simp: pendingUntil_def lateIssue_def perform_def sleep_def pendingDetail_def
        timeout_def second_def)
  have get: "perform (Get ''default/web'') (k8sGet lateIssue ''default/web'') startClock
             = (Inr liveIngress, ?s1)"
    by (simp add: lateIssue_def startClock_def perform_def)
  have m: "Managed ?cfg" and live: "IsZero (DeletionTimestamp liveIngress)"
    by (simp_all add: example_simps more_simps)
  have fin: "(if \<not> ContainsFinalizer liveIngress ingressFinalizer
              then perform (Update (AddFinalizer liveIngress ingressFinalizer))
                     (k8sUpdate lateIssue (AddFinalizer liveIngress ingressFinalizer)) ?s1
              else (Inr liveIngress, ?s1)) = (Inr ?with, ?s2)"
    by (simp add: lateIssue_def example_simps more_simps)
  have dom: "''foo.example.com'' = selectDomain ?cfg liveIngress"
    by (simp add: example_simps more_simps)
  have nore: "reuseCheck lateIssue ''foo.example.com'' ?cfg ?s2 = (None, ?s3)"
    by (simp add: lateIssue_def example_simps more_simps)
  have req: "perform (RequestCertificate (newRequest ''foo.example.com'' ?cfg))
               (acmRequestCertificate lateIssue (newRequest ''foo.example.com'' ?cfg)) ?s3
             = (Inr ''arn:new'', ?s4)"
    by (simp add: lateIssue_def perform_def)
  have recs: "createRoute53ValidationRecords lateIssue ''arn:new'' (ZoneID ?cfg) ?s4 = (None, ?s5)"
    by (simp add: lateIssue_def example_simps more_simps second_def)
  have pend5: "pendingUntil lateIssue ''arn:new'' (now ?s5 + timeout) (\<lambda>s. world s = now s)"
    using pend by simp
  have inv5: "world ?s5 = now ?s5" by simp
  from pending_until_deadline_times_out
    [OF get refl m live fin dom nore req recs pend5, OF inv5]
  obtain s' where "Reconcile lateIssue ''default/web'' startClock
                   = ((noRequeue, Some (TimedOut ''arn:new'')), s')"
    and "5 + timeout < now s'" and "filter isPatch (calls s') = filter isPatch (calls startClock)"
    by auto
  then have "Reconcile lateIssue ''default/web'' startClock
               = ((noRequeue, Some (TimedOut ''arn:new'')), s') \<and>
          5 + timeout < now s' \<and> filter isPatch (calls s') = []"
    by (simp add: startClock_def)
  with pend show ?thesis by blast
qed

end
